theory Spec2Isabelle
  imports Complex_Main "HOL-Library.Multiset" "HOL-Library.Product_Lexorder"
begin

section \<open>The manual-sort web component: data model\<close>

text \<open>
  The component \<^verbatim>\<open>ManualSort\<close> is an ordered list element whose children can be
  reordered by dragging. Its methods read and write the DOM; the part of the DOM they
  touch is made explicit here as one record that every method takes and returns.

  Elements are references: two children are the same item when they are the same
  reference, as \<^verbatim>\<open>indexOf\<close> compares them.
\<close>

type_synonym elem = nat

text \<open>
  \<^verbatim>\<open>DOMRect\<close>: the four coordinates the component reads. JavaScript numbers are
  modelled as reals (bounding boxes are finite, so comparisons agree; the rounding of
  the subtraction is not modelled).
\<close>

record DOMRect =
  left :: real
  top' :: real
  right :: real
  bottom :: real

text \<open>
  The values the component writes into style properties. \<open>Text s\<close> is the literal
  string \<open>s\<close> (\<open>Text ''''\<close> clears the property), \<open>NumberString r\<close> is
  \<^verbatim>\<open>r.toString()\<close>, and \<open>Translate x y\<close> is the template string
  \<^verbatim>\<open>translate(${x}px, ${y}px)\<close>, where \<open>None\<close> is a variable that is still
  \<^verbatim>\<open>undefined\<close>.
\<close>

datatype css_value =
    Text string
  | NumberString real
  | Translate "real option" "real option"

text \<open>
  A descendant of an item, as far as \<^verbatim>\<open>querySelector\<close>, \<^verbatim>\<open>classList\<close> and
  \<^verbatim>\<open>draggable\<close> see it.
\<close>

record node =
  tagName :: string
  classList :: "string list"
  draggable :: bool

text \<open>One entry of \<^verbatim>\<open>sortablesAndBounds\<close>: \<^verbatim>\<open>{child, bounds}\<close>.\<close>

record entry =
  child :: elem
  bounds :: DOMRect

text \<open>
  The calls on the environment that are logged: \<^verbatim>\<open>style.setProperty\<close>,
  \<^verbatim>\<open>dispatchEvent\<close> of a custom event with its list of children, and
  \<^verbatim>\<open>preventDefault\<close> on the event being handled.
\<close>

datatype effect =
    SetProperty elem string css_value
  | DispatchEvent string "elem list"
  | PreventDefault

datatype js_error = TypeError

text \<open>
  The component and the part of the document it reads and writes.
  \<^item> \<open>children\<close>: \<^verbatim>\<open>this.children\<close>, in document order;
  \<^item> \<open>attributes\<close>: \<^verbatim>\<open>this.getAttribute(name)\<close>, \<open>None\<close> for \<^verbatim>\<open>null\<close>;
  \<^item> \<open>layout\<close>: the layout engine, as far as the component can see it: the box that
    \<^verbatim>\<open>getBoundingClientRect()\<close> reports for a child, as a function of the child
    sequence and of the inline styles (whatever else layout depends on, such as the
    style sheet, is fixed in it). The component never writes it, but its style writes
    change what it reports;
  \<^item> \<open>style\<close>: \<^verbatim>\<open>el.style\<close>, the inline declarations by element and longhand
    property name;
  \<^item> \<open>itemDraggable\<close>: the \<^verbatim>\<open>draggable\<close> flag of each child;
  \<^item> \<open>descendants\<close>: the descendants of each child in document order (the order
    \<^verbatim>\<open>querySelector\<close> searches in; \<^verbatim>\<open>prepend\<close> adds at its front);
  \<^item> \<open>draggingItemIndex\<close>, \<open>dropIndex\<close>: the optional number fields, \<open>None\<close> for
    \<^verbatim>\<open>undefined\<close>;
  \<^item> \<open>sortablesAndBounds\<close>: the snapshot taken at drag start;
  \<^item> \<open>effects\<close>: the log of the style writes, event dispatches and
    \<^verbatim>\<open>preventDefault\<close> calls made so far, oldest first.
\<close>

record manual_sort =
  children :: "elem list"
  attributes :: "string \<Rightarrow> string option"
  layout :: "elem list \<Rightarrow> (elem \<times> string \<Rightarrow> css_value) \<Rightarrow> elem \<Rightarrow> DOMRect"
  style :: "elem \<times> string \<Rightarrow> css_value"
  itemDraggable :: "elem \<Rightarrow> bool"
  descendants :: "elem \<Rightarrow> node list"
  draggingItemIndex :: "int option"
  dropIndex :: "int option"
  sortablesAndBounds :: "entry list"
  effects :: "effect list"

text \<open>
  A method either returns normally with the new state (\<open>Inr\<close>) or throws, leaving the
  state as it was at the throw (\<open>Inl\<close>).
\<close>

type_synonym outcome = "(js_error \<times> manual_sort) + manual_sort"

fun state_of :: "outcome \<Rightarrow> manual_sort" where
  "state_of (Inl (err, st)) = st"
| "state_of (Inr st) = st"

section \<open>Array primitives\<close>

text \<open>\<^verbatim>\<open>xs[k]\<close>: \<open>None\<close> is \<^verbatim>\<open>undefined\<close>, outside the array.\<close>

definition arrayAt :: "'a list \<Rightarrow> int \<Rightarrow> 'a option" where
  "arrayAt xs k = (if 0 \<le> k \<and> k < int (length xs) then Some (xs ! nat k) else None)"

text \<open>
  \<^verbatim>\<open>Array.prototype.findIndex\<close>: the index of the first element satisfying the
  predicate, \<open>- 1\<close> when there is none.
\<close>

fun findIndexFrom :: "('a \<Rightarrow> bool) \<Rightarrow> int \<Rightarrow> 'a list \<Rightarrow> int" where
  "findIndexFrom P k [] = - 1"
| "findIndexFrom P k (x # xs) = (if P x then k else findIndexFrom P (k + 1) xs)"

definition findIndex :: "('a \<Rightarrow> bool) \<Rightarrow> 'a list \<Rightarrow> int" where
  "findIndex P xs = findIndexFrom P 0 xs"

text \<open>\<^verbatim>\<open>Array.prototype.indexOf\<close>, on references.\<close>

definition indexOf :: "'a list \<Rightarrow> 'a \<Rightarrow> int" where
  "indexOf xs x = findIndex (\<lambda>y. y = x) xs"

text \<open>
  \<^verbatim>\<open>Array.prototype.sort(compareFn)\<close> is stable, and on a consistent comparator
  its result is fixed by that; it is modelled as insertion sort, inserting each element
  before the first later element it does not compare greater than.
\<close>

fun insertBy :: "('a \<Rightarrow> 'a \<Rightarrow> int) \<Rightarrow> 'a \<Rightarrow> 'a list \<Rightarrow> 'a list" where
  "insertBy cmp x [] = [x]"
| "insertBy cmp x (y # ys) = (if cmp x y \<le> 0 then x # y # ys else y # insertBy cmp x ys)"

fun sortBy :: "('a \<Rightarrow> 'a \<Rightarrow> int) \<Rightarrow> 'a list \<Rightarrow> 'a list" where
  "sortBy cmp [] = []"
| "sortBy cmp (x # xs) = insertBy cmp x (sortBy cmp xs)"

section \<open>Visual order\<close>

text \<open>\<^verbatim>\<open>el.getBoundingClientRect()\<close>, laid out from the current children and styles.\<close>

definition boundingClientRect :: "manual_sort \<Rightarrow> elem \<Rightarrow> DOMRect" where
  "boundingClientRect st el = layout st (children st) (style st) el"

definition sortables :: "manual_sort \<Rightarrow> elem list" where
  "sortables st = children st"

text \<open>The comparator of \<^verbatim>\<open>sortablesInVisualOrder\<close>.\<close>

definition compareBounds :: "manual_sort \<Rightarrow> elem \<Rightarrow> elem \<Rightarrow> int" where
  "compareBounds st a b =
     (let aBounds = boundingClientRect st a; bBounds = boundingClientRect st b in
      if top' aBounds < top' bBounds then - 1
      else if top' aBounds > top' bBounds then 1
      else if left aBounds < left bBounds then - 1
      else if left aBounds > left bBounds then 1
      else 0)"

definition sortablesInVisualOrder :: "manual_sort \<Rightarrow> elem list" where
  "sortablesInVisualOrder st = sortBy (compareBounds st) (sortables st)"

section \<open>Style writes and events\<close>

text \<open>
  A declaration block stores longhand properties. \<^verbatim>\<open>transition\<close> is a shorthand:
  setting it sets its five longhands, those that the value leaves out to their initial
  values, and the empty string clears them all. Of the shorthand's grammar only the two
  values the component writes are interpreted; any other value is treated like an
  invalid one, which leaves the declarations as they were.
\<close>

definition transitionLonghands :: "css_value \<Rightarrow> (string \<times> css_value) list" where
  "transitionLonghands v =
     (if v = Text ''transform 100ms'' then
        [(''transition-property'', Text ''transform''),
         (''transition-duration'', Text ''100ms''),
         (''transition-timing-function'', Text ''ease''),
         (''transition-delay'', Text ''0s''),
         (''transition-behavior'', Text ''normal'')]
      else if v = Text '''' then
        [(''transition-property'', Text ''''),
         (''transition-duration'', Text ''''),
         (''transition-timing-function'', Text ''''),
         (''transition-delay'', Text ''''),
         (''transition-behavior'', Text '''')]
      else [])"

text \<open>
  \<^verbatim>\<open>el.style.setProperty(name, value)\<close>; \<^verbatim>\<open>el.style.order = value\<close> is the same call.
  The log records the call as it is made.
\<close>

definition setProperty :: "elem \<Rightarrow> string \<Rightarrow> css_value \<Rightarrow> manual_sort \<Rightarrow> manual_sort" where
  "setProperty el name v st =
     st\<lparr>style :=
          (if name = ''transition''
           then fold (\<lambda>(longhand, w) sty. sty((el, longhand) := w)) (transitionLonghands v) (style st)
           else (style st)((el, name) := v)),
        effects := effects st @ [SetProperty el name v]\<rparr>"

text \<open>\<^verbatim>\<open>this.dispatchEvent(new CustomEvent(name, {detail: {children: detail}}))\<close>.\<close>

definition dispatchEvent :: "string \<Rightarrow> elem list \<Rightarrow> manual_sort \<Rightarrow> manual_sort" where
  "dispatchEvent name detail st = st\<lparr>effects := effects st @ [DispatchEvent name detail]\<rparr>"

definition preventDefault :: "manual_sort \<Rightarrow> manual_sort" where
  "preventDefault st = st\<lparr>effects := effects st @ [PreventDefault]\<rparr>"

text \<open>\<^verbatim>\<open>xs.forEach((x, i) => ...)\<close>, the state threaded through the calls.\<close>

fun forEachIndexed :: "('a \<Rightarrow> nat \<Rightarrow> 's \<Rightarrow> 's) \<Rightarrow> 'a list \<Rightarrow> nat \<Rightarrow> 's \<Rightarrow> 's" where
  "forEachIndexed f [] i st = st"
| "forEachIndexed f (x # xs) i st = forEachIndexed f xs (i + 1) (f x i st)"

text \<open>\<^verbatim>\<open>xs.forEach(x => ...)\<close> with a body that can throw: the first throw ends the loop.\<close>

fun forEachThrowing :: "('a \<Rightarrow> manual_sort \<Rightarrow> outcome) \<Rightarrow> 'a list \<Rightarrow> manual_sort \<Rightarrow> outcome" where
  "forEachThrowing f [] st = Inr st"
| "forEachThrowing f (x # xs) st =
     (case f x st of Inl thrown \<Rightarrow> Inl thrown | Inr st' \<Rightarrow> forEachThrowing f xs st')"

section \<open>The constructor\<close>

text \<open>
  The constructor sets \<^verbatim>\<open>sortablesAndBounds = []\<close> and leaves \<^verbatim>\<open>draggingItemIndex\<close>
  and \<^verbatim>\<open>dropIndex\<close> undefined. The document around the new component (its children,
  attributes and the layout engine) is given; no inline style has been set and nothing
  has been logged yet.
\<close>

definition constructed ::
  "elem list \<Rightarrow> (string \<Rightarrow> string option) \<Rightarrow>
   (elem list \<Rightarrow> (elem \<times> string \<Rightarrow> css_value) \<Rightarrow> elem \<Rightarrow> DOMRect) \<Rightarrow> (elem \<Rightarrow> node list) \<Rightarrow>
   manual_sort" where
  "constructed cs attrs lay subs =
     \<lparr>children = cs, attributes = attrs, layout = lay,
      style = (\<lambda>_. Text ''''), itemDraggable = (\<lambda>_. False), descendants = subs,
      draggingItemIndex = None, dropIndex = None, sortablesAndBounds = [], effects = []\<rparr>"

section \<open>Preview\<close>

text \<open>
  The body of the loop of \<^verbatim>\<open>previewNewPositions\<close> up to the style writes: the
  translation and opacity of entry \<open>i\<close>. Reading \<^verbatim>\<open>.bounds\<close> of an entry outside the
  array throws. The loop runs \<open>i\<close> below the length only, so entry \<open>i\<close> itself exists.
  \<open>(None, None, 1)\<close> is the initial value of the three variables.
\<close>

definition previewValues ::
  "entry list \<Rightarrow> int \<Rightarrow> int \<Rightarrow> int \<Rightarrow> int \<Rightarrow> nat \<Rightarrow> js_error + (real option \<times> real option \<times> real)" where
  "previewValues sab d newIndex startIndex endIndex i =
     (let left_i = left (bounds (sab ! i)); top_i = top' (bounds (sab ! i)) in
      if int i = d then
        (case arrayAt sab newIndex of
           None \<Rightarrow> Inl TypeError
         | Some e \<Rightarrow> Inr (Some (left (bounds e) - left_i), Some (top' (bounds e) - top_i), 0.1))
      else if int i < startIndex \<or> int i > endIndex then
        Inr (Some 0, Some 0, 0.7)
      else if int i < d then
        (case arrayAt sab (int i + 1) of
           None \<Rightarrow> Inl TypeError
         | Some e \<Rightarrow> Inr (Some (left (bounds e) - left_i), Some (top' (bounds e) - top_i), 1))
      else if int i > d then
        (case arrayAt sab (int i - 1) of
           None \<Rightarrow> Inl TypeError
         | Some e \<Rightarrow> Inr (Some (left (bounds e) - left_i), Some (top' (bounds e) - top_i), 1))
      else Inr (None, None, 1))"

text \<open>The three style writes that end the loop body.\<close>

definition previewWrites :: "elem \<Rightarrow> real option \<times> real option \<times> real \<Rightarrow> manual_sort \<Rightarrow> manual_sort" where
  "previewWrites c v st =
     (case v of (translateX, translateY, opacity) \<Rightarrow>
        setProperty c ''opacity'' (NumberString opacity)
          (setProperty c ''transform'' (Translate translateX translateY)
            (setProperty c ''transition'' (Text ''transform 100ms'') st)))"

text \<open>The \<^verbatim>\<open>for\<close> loop, from index \<open>i\<close> on.\<close>

function previewLoop :: "int \<Rightarrow> int \<Rightarrow> int \<Rightarrow> int \<Rightarrow> nat \<Rightarrow> manual_sort \<Rightarrow> outcome" where
  "previewLoop d newIndex startIndex endIndex i st =
     (if i < length (sortablesAndBounds st) then
        (case previewValues (sortablesAndBounds st) d newIndex startIndex endIndex i of
           Inl err \<Rightarrow> Inl (err, st)
         | Inr v \<Rightarrow>
             previewLoop d newIndex startIndex endIndex (i + 1)
               (previewWrites (child (sortablesAndBounds st ! i)) v st))
      else Inr st)"
  by pat_completeness auto
termination
  by (relation "measure (\<lambda>(d, newIndex, startIndex, endIndex, i, st). length (sortablesAndBounds st) - i)")
     (auto simp: previewWrites_def setProperty_def split: prod.splits)

declare previewLoop.simps [simp del]

definition previewNewPositions :: "int \<Rightarrow> manual_sort \<Rightarrow> outcome" where
  "previewNewPositions newIndex st =
     (case draggingItemIndex st of
        None \<Rightarrow> Inr st
      | Some d \<Rightarrow>
          if newIndex = - 1 then Inr st
          else
            (let startIndex = min d newIndex; endIndex = max d newIndex
             in previewLoop d newIndex startIndex endIndex 0 st))"

section \<open>Reset\<close>

definition resetChild :: "elem \<Rightarrow> nat \<Rightarrow> manual_sort \<Rightarrow> manual_sort" where
  "resetChild c i st =
     setProperty c ''order'' (NumberString (real i))
       (setProperty c ''opacity'' (Text '''')
         (setProperty c ''transform'' (Text '''')
           (setProperty c ''transition-duration'' (Text ''0ms'') st)))"

definition resetPreviewPositions :: "manual_sort \<Rightarrow> manual_sort" where
  "resetPreviewPositions st = forEachIndexed resetChild (sortablesInVisualOrder st) 0 st"

section \<open>Hit test\<close>

definition findSortableIndex :: "real \<Rightarrow> real \<Rightarrow> manual_sort \<Rightarrow> int" where
  "findSortableIndex mouseX mouseY st =
     findIndex
       (\<lambda>c. mouseX \<ge> left (bounds c) \<and> mouseX \<le> right (bounds c) \<and>
            mouseY \<ge> top' (bounds c) \<and> mouseY \<le> bottom (bounds c))
       (sortablesAndBounds st)"

section \<open>Drag event handlers\<close>

text \<open>
  \<^verbatim>\<open>handleDragstart\<close>, given the dragged child as the handler resolves it from the
  event's target. Its calls on \<^verbatim>\<open>e.dataTransfer\<close> act on the event only.
\<close>

definition handleDragstart :: "elem \<Rightarrow> manual_sort \<Rightarrow> manual_sort" where
  "handleDragstart c st =
     st\<lparr>draggingItemIndex := Some (indexOf (sortablesInVisualOrder st) c),
        sortablesAndBounds :=
          map (\<lambda>c. \<lparr>child = c, bounds = boundingClientRect st c\<rparr>) (sortablesInVisualOrder st)\<rparr>"

text \<open>
  The guard of both handlers is \<^verbatim>\<open>this.draggingItemIndex === -1\<close>: strict equality,
  which \<^verbatim>\<open>undefined\<close> does not satisfy. \<^verbatim>\<open>this.dropIndex == newIndex\<close> is false
  for an undefined \<^verbatim>\<open>dropIndex\<close>, since \<open>newIndex\<close> is a number.
\<close>

definition handleDragover :: "real \<Rightarrow> real \<Rightarrow> manual_sort \<Rightarrow> outcome" where
  "handleDragover clientX clientY st =
     (if draggingItemIndex st = Some (- 1) then Inr st
      else
        (let st1 = preventDefault st;
             newIndex = findSortableIndex clientX clientY st1
         in if dropIndex st1 = Some newIndex then Inr st1
            else
              (case previewNewPositions newIndex st1 of
                 Inl thrown \<Rightarrow> Inl thrown
               | Inr st2 \<Rightarrow> Inr (st2\<lparr>dropIndex := Some newIndex\<rparr>))))"

definition handleDragend :: "manual_sort \<Rightarrow> manual_sort" where
  "handleDragend st =
     (if draggingItemIndex st = Some (- 1) then st
      else resetPreviewPositions (dispatchEvent ''sort'' (sortablesInVisualOrder st) st))"

section \<open>Drag handles\<close>

definition getAttribute :: "manual_sort \<Rightarrow> string \<Rightarrow> string option" where
  "getAttribute st name = attributes st name"

text \<open>\<^verbatim>\<open>!!v\<close> for a string or null: null and the empty string are falsy.\<close>

definition truthy :: "string option \<Rightarrow> bool" where
  "truthy v = (case v of None \<Rightarrow> False | Some s \<Rightarrow> s \<noteq> [])"

definition useDragHandles :: "manual_sort \<Rightarrow> bool" where
  "useDragHandles st =
     (truthy (getAttribute st ''drag-handles'') \<and> getAttribute st ''drag-handles'' \<noteq> Some ''false'')"

definition createDragHandles :: "manual_sort \<Rightarrow> bool" where
  "createDragHandles st = (getAttribute st ''drag-handles'' = Some ''create'')"

text \<open>
  \<^verbatim>\<open>child.querySelector('.' + c)\<close>: the position, among the descendants in document
  order, of the first one with class \<open>c\<close>; \<open>None\<close> is \<^verbatim>\<open>null\<close>.
\<close>

fun querySelectorClass :: "string \<Rightarrow> node list \<Rightarrow> nat option" where
  "querySelectorClass c [] = None"
| "querySelectorClass c (n # ns) =
     (if c \<in> set (classList n) then Some 0 else map_option Suc (querySelectorClass c ns))"

definition createElement :: "string \<Rightarrow> node" where
  "createElement tag = \<lparr>tagName = tag, classList = [], draggable = False\<rparr>"

definition classListAdd :: "string \<Rightarrow> node \<Rightarrow> node" where
  "classListAdd c n = (if c \<in> set (classList n) then n else n\<lparr>classList := classList n @ [c]\<rparr>)"

definition prepend :: "elem \<Rightarrow> node \<Rightarrow> manual_sort \<Rightarrow> manual_sort" where
  "prepend c n st = st\<lparr>descendants := (descendants st)(c := n # descendants st c)\<rparr>"

text \<open>\<^verbatim>\<open>handle.draggable = true\<close> for the descendant at position \<open>k\<close> of child \<open>c\<close>.\<close>

definition setNodeDraggable :: "elem \<Rightarrow> nat \<Rightarrow> manual_sort \<Rightarrow> manual_sort" where
  "setNodeDraggable c k st =
     st\<lparr>descendants :=
          (descendants st)(c := (descendants st c)[k := (descendants st c ! k)\<lparr>draggable := True\<rparr>])\<rparr>"

text \<open>
  \<^verbatim>\<open>makeSortableDraggable\<close>. The non-null assertion on the handle is unchecked at run
  time: setting \<^verbatim>\<open>draggable\<close> on \<^verbatim>\<open>null\<close> throws a TypeError.
\<close>

definition makeSortableDraggable :: "elem \<Rightarrow> manual_sort \<Rightarrow> outcome" where
  "makeSortableDraggable c st =
     (let st1 =
        (if createDragHandles st \<and> querySelectorClass ''drag-handle'' (descendants st c) = None
         then (let dragHandle = classListAdd ''drag-handle'' (createElement ''div'')
               in prepend c dragHandle st)
         else st)
      in if useDragHandles st1 then
           (case querySelectorClass ''drag-handle'' (descendants st1 c) of
              None \<Rightarrow> Inl (TypeError, st1)
            | Some k \<Rightarrow> Inr (setNodeDraggable c k st1))
         else Inr (st1\<lparr>itemDraggable := (itemDraggable st1)(c := True)\<rparr>))"

definition makeAllSortablesDraggable :: "manual_sort \<Rightarrow> outcome" where
  "makeAllSortablesDraggable st = forEachThrowing makeSortableDraggable (sortables st) st"

section \<open>Example documents\<close>

text \<open>
  Two layout engines for the examples. In both an item is 100 wide and 18 high, the
  slots are 20 apart, and an item is painted at its slot moved by its
  \<^verbatim>\<open>translate\<close> transform.
\<close>

definition translation :: "css_value \<Rightarrow> real \<times> real" where
  "translation v = (case v of Translate (Some x) (Some y) \<Rightarrow> (x, y) | _ \<Rightarrow> (0, 0))"

definition placed :: "nat \<Rightarrow> css_value \<Rightarrow> DOMRect" where
  "placed slot tr =
     (case translation tr of (dx, dy) \<Rightarrow>
        \<lparr>left = dx, top' = 20 * real slot + dy, right = 100 + dx, bottom = 20 * real slot + 18 + dy\<rparr>)"


text \<open>
  A flex column: the items are laid out by their \<^verbatim>\<open>order\<close>, and in document order
  among equal orders. The order of an item is its inline one when that is set, else the
  one the style sheet gives it.
\<close>

definition orderOf :: "(elem \<Rightarrow> real) \<Rightarrow> (elem \<times> string \<Rightarrow> css_value) \<Rightarrow> elem \<Rightarrow> real" where
  "orderOf sheet sty c = (case sty (c, ''order'') of NumberString r \<Rightarrow> r | _ \<Rightarrow> sheet c)"

definition columnLayout ::
  "(elem \<Rightarrow> real) \<Rightarrow> elem list \<Rightarrow> (elem \<times> string \<Rightarrow> css_value) \<Rightarrow> elem \<Rightarrow> DOMRect" where
  "columnLayout sheet cs sty el =
     placed
       (length (filter
          (\<lambda>c. orderOf sheet sty c < orderOf sheet sty el \<or>
               (orderOf sheet sty c = orderOf sheet sty el \<and>
                length (takeWhile (\<lambda>x. x \<noteq> c) cs) < length (takeWhile (\<lambda>x. x \<noteq> el) cs)))
          cs))
       (sty (el, ''transform''))"

text \<open>
  Three items in a flex column whose style sheet orders them against the document
  order: item 1 is on top, then item 2, then item 0.
\<close>

definition shuffled3 :: manual_sort where
  "shuffled3 = constructed [0, 1, 2] (\<lambda>_. None)
     (columnLayout (\<lambda>e. if e = 0 then 2 else if e = 1 then 0 else 1)) (\<lambda>_. [])"

text \<open>The same document after a drag has started on item 0, the lowest of the three.\<close>

definition dragging1 :: manual_sort where
  "dragging1 = handleDragstart 0 shuffled3"

text \<open>
  The same drag after a preview of dropping item 0 at the top: the transforms now make
  the layout report item 0 on top and items 1 and 2 below it.
\<close>

definition moved1 :: manual_sort where
  "moved1 = state_of (previewNewPositions 0 dragging1)"

text \<open>
  Four items in a flex column in document order, and the same list after a drag has
  started on item 2.
\<close>

definition vertical4 :: manual_sort where
  "vertical4 = constructed [0, 1, 2, 3] (\<lambda>_. None) (columnLayout (\<lambda>_. 0)) (\<lambda>_. [])"

definition draggingC :: manual_sort where
  "draggingC = handleDragstart 2 vertical4"



text \<open>
  A list of two items for the drag handle configuration: the value of the
  \<^verbatim>\<open>drag-handles\<close> attribute and the items' descendants are given.
\<close>

definition twoItems :: "string option \<Rightarrow> (elem \<Rightarrow> node list) \<Rightarrow> manual_sort" where
  "twoItems v subs =
     constructed [0, 1] (\<lambda>name. if name = ''drag-handles'' then v else None)
       (columnLayout (\<lambda>_. 0)) subs"

text \<open>A handle as the caller would provide it, not yet draggable.\<close>

definition callerHandle :: node where
  "callerHandle = \<lparr>tagName = ''span'', classList = [''drag-handle''], draggable = False\<rparr>"

section \<open>Auxiliary notions\<close>

text \<open>The order the comparator induces: by top, then by left.\<close>

abbreviation visualLe :: "manual_sort \<Rightarrow> elem \<Rightarrow> elem \<Rightarrow> bool" where
  "visualLe st a b \<equiv>
     top' (boundingClientRect st a) < top' (boundingClientRect st b) \<or>
     (top' (boundingClientRect st a) = top' (boundingClientRect st b) \<and>
      left (boundingClientRect st a) \<le> left (boundingClientRect st b))"

text \<open>
  What \<^verbatim>\<open>makeSortableDraggable\<close> makes of an item's descendants when handles are
  created: a new draggable handle in front if there is none, else the first handle made
  draggable. Used in the proofs only.
\<close>

definition withDragHandle :: "node list \<Rightarrow> node list" where
  "withDragHandle ns =
     (case querySelectorClass ''drag-handle'' ns of
        None \<Rightarrow> \<lparr>tagName = ''div'', classList = [''drag-handle''], draggable = True\<rparr> # ns
      | Some k \<Rightarrow> ns[k := (ns ! k)\<lparr>draggable := True\<rparr>])"

section \<open>Properties of the visual order\<close>

lemma mset_insertBy: "mset (insertBy cmp x xs) = add_mset x (mset xs)"
  by (induction xs) auto

lemma mset_sortBy: "mset (sortBy cmp xs) = mset xs"
  by (induction xs) (auto simp: mset_insertBy)

lemma set_insertBy: "set (insertBy cmp x xs) = insert x (set xs)"
  by (induction xs) auto

lemma compareBounds_le:
  "compareBounds st a b \<le> 0 \<longleftrightarrow>
     top' (boundingClientRect st a) < top' (boundingClientRect st b) \<or>
     (top' (boundingClientRect st a) = top' (boundingClientRect st b) \<and>
      left (boundingClientRect st a) \<le> left (boundingClientRect st b))"
  by (auto simp: compareBounds_def Let_def)

lemma sorted_insertBy:
  "sorted_wrt (visualLe st) xs \<Longrightarrow> sorted_wrt (visualLe st) (insertBy (compareBounds st) x xs)"
proof (induction xs)
  case Nil
  then show ?case by simp
next
  case (Cons y ys)
  show ?case
  proof (cases "compareBounds st x y \<le> 0")
    case True
    then have xy: "visualLe st x y" by (simp add: compareBounds_le)
    have "\<forall>z\<in>set ys. visualLe st y z" using Cons.prems by simp
    with xy have "\<forall>z\<in>set ys. visualLe st x z" by force
    with True xy Cons.prems show ?thesis by simp
  next
    case False
    then have yx: "visualLe st y x" by (auto simp: compareBounds_le)
    from Cons have "sorted_wrt (visualLe st) (insertBy (compareBounds st) x ys)" by simp
    with False yx Cons.prems show ?thesis by (auto simp: set_insertBy)
  qed
qed

lemma sorted_sortBy: "sorted_wrt (visualLe st) (sortBy (compareBounds st) xs)"
  by (induction xs) (auto intro: sorted_insertBy)

text \<open>
  Stability: inserting passes only elements that compare strictly smaller, and those
  differ from the inserted one in top or left.
\<close>

lemma filter_insertBy:
  "filter (\<lambda>e. top' (boundingClientRect st e) = t \<and> left (boundingClientRect st e) = l)
     (insertBy (compareBounds st) x xs) =
   (if top' (boundingClientRect st x) = t \<and> left (boundingClientRect st x) = l
    then x # filter (\<lambda>e. top' (boundingClientRect st e) = t \<and> left (boundingClientRect st e) = l) xs
    else filter (\<lambda>e. top' (boundingClientRect st e) = t \<and> left (boundingClientRect st e) = l) xs)"
  by (induction xs) (auto simp: compareBounds_le)

lemma filter_sortBy:
  "filter (\<lambda>e. top' (boundingClientRect st e) = t \<and> left (boundingClientRect st e) = l)
     (sortBy (compareBounds st) xs) =
   filter (\<lambda>e. top' (boundingClientRect st e) = t \<and> left (boundingClientRect st e) = l) xs"
  by (induction xs) (auto simp: filter_insertBy)

lemma sorted_wrt_strict_tops:
  assumes "sorted_wrt (visualLe st) xs"
    and "distinct (map (\<lambda>e. top' (boundingClientRect st e)) xs)"
  shows "sorted_wrt (\<lambda>a b. top' (boundingClientRect st a) < top' (boundingClientRect st b)) xs"
  using assms by (induction xs) force+

lemma distinct_tops_sortBy:
  assumes "distinct (map f xs)"
  shows "distinct (map f (sortBy cmp xs))"
proof -
  have "mset (map f (sortBy cmp xs)) = mset (map f xs)"
    by (simp add: mset_sortBy)
  then show ?thesis using assms by (rule mset_eq_imp_distinct_iff [THEN iffD2])
qed

lemma sortBy_is_sort_key:
  "sortBy (compareBounds st) xs =
   sort_key (\<lambda>e. (top' (boundingClientRect st e), left (boundingClientRect st e))) xs"
proof (rule properties_for_sort_key [symmetric])
  show "mset (sortBy (compareBounds st) xs) = mset xs" by (rule mset_sortBy)
next
  fix k
  show "filter (\<lambda>x. (top' (boundingClientRect st k), left (boundingClientRect st k)) =
                  (top' (boundingClientRect st x), left (boundingClientRect st x)))
          (sortBy (compareBounds st) xs) =
        filter (\<lambda>x. (top' (boundingClientRect st k), left (boundingClientRect st k)) =
                  (top' (boundingClientRect st x), left (boundingClientRect st x))) xs"
    using filter_sortBy [of st "top' (boundingClientRect st k)" "left (boundingClientRect st k)" xs]
    by (simp add: eq_commute)
next
  have "sorted_wrt (visualLe st) (sortBy (compareBounds st) xs)" by (rule sorted_sortBy)
  then show "sorted (map (\<lambda>e. (top' (boundingClientRect st e), left (boundingClientRect st e)))
      (sortBy (compareBounds st) xs))"
    by (simp add: sorted_map less_eq_prod_def) (erule sorted_wrt_mono_rel [rotated], auto)
qed

text \<open>
  The visual order does not depend on the sorting algorithm: every arrangement of the
  children that ascends by (top, left) and keeps the children's order among equal keys
  is the one \<^verbatim>\<open>sortablesInVisualOrder\<close> returns.
\<close>

lemma visual_order_unique:
  assumes "mset ys = mset (children st)"
    and "sorted_wrt (visualLe st) ys"
    and "\<And>t l. filter (\<lambda>e. top' (boundingClientRect st e) = t \<and> left (boundingClientRect st e) = l) ys =
               filter (\<lambda>e. top' (boundingClientRect st e) = t \<and> left (boundingClientRect st e) = l)
                 (children st)"
  shows "ys = sortablesInVisualOrder st"
proof -
  let ?f = "\<lambda>e. (top' (boundingClientRect st e), left (boundingClientRect st e))"
  have "sort_key ?f (children st) = ys"
  proof (rule properties_for_sort_key)
    show "mset ys = mset (children st)" by (rule assms(1))
  next
    fix k
    show "filter (\<lambda>x. ?f k = ?f x) ys = filter (\<lambda>x. ?f k = ?f x) (children st)"
      using assms(3) [of "top' (boundingClientRect st k)" "left (boundingClientRect st k)"]
      by (simp add: eq_commute)
  next
    from assms(2) show "sorted (map ?f ys)"
      by (simp add: sorted_map less_eq_prod_def) (erule sorted_wrt_mono_rel [rotated], auto)
  qed
  then show ?thesis
    by (simp add: sortablesInVisualOrder_def sortables_def sortBy_is_sort_key)
qed

text \<open>
  Claim C3. \<^verbatim>\<open>sortablesInVisualOrder\<close> returns the children stably sorted by
  (top, then left): the result is a rearrangement of the children; it ascends by top,
  and by left among equal tops; items with the same top and the same left keep the
  order they have among the children; and when all tops are distinct the result is
  strictly ascending by top.
\<close>

theorem sortablesInVisualOrder_stable_sort:
  "mset (sortablesInVisualOrder st) = mset (children st) \<and>
   sorted_wrt (\<lambda>a b. top' (boundingClientRect st a) < top' (boundingClientRect st b) \<or>
                 (top' (boundingClientRect st a) = top' (boundingClientRect st b) \<and>
                  left (boundingClientRect st a) \<le> left (boundingClientRect st b)))
     (sortablesInVisualOrder st) \<and>
   (\<forall>t l. filter (\<lambda>e. top' (boundingClientRect st e) = t \<and> left (boundingClientRect st e) = l)
            (sortablesInVisualOrder st) =
          filter (\<lambda>e. top' (boundingClientRect st e) = t \<and> left (boundingClientRect st e) = l)
            (children st)) \<and>
   (distinct (map (\<lambda>e. top' (boundingClientRect st e)) (children st)) \<longrightarrow>
      sorted_wrt (\<lambda>a b. top' (boundingClientRect st a) < top' (boundingClientRect st b))
        (sortablesInVisualOrder st))"
proof -
  let ?r = "sortablesInVisualOrder st"
  have perm: "mset ?r = mset (children st)"
    by (simp add: sortablesInVisualOrder_def sortables_def mset_sortBy)
  have srt: "sorted_wrt (visualLe st) ?r"
    by (simp add: sortablesInVisualOrder_def sorted_sortBy)
  have stable: "\<forall>t l. filter (\<lambda>e. top' (boundingClientRect st e) = t \<and> left (boundingClientRect st e) = l) ?r =
          filter (\<lambda>e. top' (boundingClientRect st e) = t \<and> left (boundingClientRect st e) = l) (children st)"
    by (simp add: sortablesInVisualOrder_def sortables_def filter_sortBy)
  have strict: "sorted_wrt (\<lambda>a b. top' (boundingClientRect st a) < top' (boundingClientRect st b)) ?r"
    if "distinct (map (\<lambda>e. top' (boundingClientRect st e)) (children st))"
  proof -
    from that have "distinct (map (\<lambda>e. top' (boundingClientRect st e)) ?r)"
      by (simp add: sortablesInVisualOrder_def sortables_def distinct_tops_sortBy)
    with srt show ?thesis by (rule sorted_wrt_strict_tops)
  qed
  from perm srt stable strict show ?thesis by blast
qed

lemma shuffled3_fresh:
  "draggingItemIndex shuffled3 = None" "dropIndex shuffled3 = None"
  "sortablesAndBounds shuffled3 = []" "effects shuffled3 = []"
  "style shuffled3 = (\<lambda>_. Text '''')"
  by (simp_all add: shuffled3_def constructed_def)

lemma shuffled3_children: "children shuffled3 = [0, 1, 2]"
  by (simp add: shuffled3_def constructed_def)

lemma shuffled3_rect:
  "boundingClientRect shuffled3 0 = \<lparr>left = 0, top' = 40, right = 100, bottom = 58\<rparr>"
  "boundingClientRect shuffled3 1 = \<lparr>left = 0, top' = 0, right = 100, bottom = 18\<rparr>"
  "boundingClientRect shuffled3 (Suc 0) = \<lparr>left = 0, top' = 0, right = 100, bottom = 18\<rparr>"
  "boundingClientRect shuffled3 2 = \<lparr>left = 0, top' = 20, right = 100, bottom = 38\<rparr>"
  by (simp_all add: boundingClientRect_def shuffled3_def constructed_def columnLayout_def
      orderOf_def placed_def translation_def)

lemma shuffled3_order: "sortablesInVisualOrder shuffled3 = [1, 2, 0]"
  by (simp add: sortablesInVisualOrder_def sortables_def shuffled3_children compareBounds_def
      shuffled3_rect)

theorem sortablesInVisualOrder_stable_sort_witness:
  "distinct (map (\<lambda>e. top' (boundingClientRect shuffled3 e)) (children shuffled3)) \<and>
   children shuffled3 = [0, 1, 2] \<and>
   sortablesInVisualOrder shuffled3 = [1, 2, 0] \<and>
   sorted_wrt (\<lambda>a b. top' (boundingClientRect shuffled3 a) < top' (boundingClientRect shuffled3 b))
     (sortablesInVisualOrder shuffled3)"
proof -
  have d: "distinct (map (\<lambda>e. top' (boundingClientRect shuffled3 e)) (children shuffled3))"
    by (simp add: shuffled3_children shuffled3_rect)
  have s: "sorted_wrt (\<lambda>a b. top' (boundingClientRect shuffled3 a) < top' (boundingClientRect shuffled3 b))
     (sortablesInVisualOrder shuffled3)"
    using sortablesInVisualOrder_stable_sort [of shuffled3] d by blast
  from d shuffled3_children shuffled3_order s show ?thesis by blast
qed

section \<open>Properties of the hit test\<close>

lemma findIndexFrom_cases:
  "0 \<le> k \<Longrightarrow>
   (findIndexFrom P k xs = - 1 \<and> (\<forall>i<length xs. \<not> P (xs ! i))) \<or>
   (\<exists>i<length xs. findIndexFrom P k xs = k + int i \<and> P (xs ! i) \<and> (\<forall>j<i. \<not> P (xs ! j)))"
proof (induction xs arbitrary: k)
  case Nil
  then show ?case by simp
next
  case (Cons x xs)
  show ?case
  proof (cases "P x")
    case True
    then show ?thesis by auto
  next
    case False
    from Cons.prems have k1: "0 \<le> k + 1" by simp
    from Cons.IH [OF k1] show ?thesis
    proof
      assume a: "findIndexFrom P (k + 1) xs = - 1 \<and> (\<forall>i<length xs. \<not> P (xs ! i))"
      with False have "\<forall>i<length (x # xs). \<not> P ((x # xs) ! i)"
        by (simp add: nth_Cons split: nat.splits)
      with a False show ?thesis by simp
    next
      assume "\<exists>i<length xs. findIndexFrom P (k + 1) xs = k + 1 + int i \<and> P (xs ! i) \<and> (\<forall>j<i. \<not> P (xs ! j))"
      then obtain i where i: "i < length xs" "findIndexFrom P (k + 1) xs = k + 1 + int i"
        "P (xs ! i)" "\<forall>j<i. \<not> P (xs ! j)" by blast
      from i(4) False have "\<forall>j<Suc i. \<not> P ((x # xs) ! j)"
        by (simp add: nth_Cons split: nat.splits)
      with i False have "Suc i < length (x # xs) \<and> findIndexFrom P k (x # xs) = k + int (Suc i) \<and>
         P ((x # xs) ! Suc i) \<and> (\<forall>j<Suc i. \<not> P ((x # xs) ! j))" by simp
      then show ?thesis by blast
    qed
  qed
qed

lemma findIndex_cases:
  "(findIndex P xs = - 1 \<and> (\<forall>i<length xs. \<not> P (xs ! i))) \<or>
   (\<exists>i<length xs. findIndex P xs = int i \<and> P (xs ! i) \<and> (\<forall>j<i. \<not> P (xs ! j)))"
  using findIndexFrom_cases [of 0 P xs] by (simp add: findIndex_def)

text \<open>
  Claim C2. \<^verbatim>\<open>findSortableIndex\<close> returns \<open>- 1\<close> exactly when no snapshot entry's box
  contains the point, with all four comparisons inclusive; otherwise it returns the index
  of an entry whose box contains the point and no earlier entry's box does. When no point
  lies in two boxes of the snapshot, every entry whose box contains the point is the one
  returned.
\<close>

theorem findSortableIndex_first_hit:
  "(let sab = sortablesAndBounds st;
        inside = (\<lambda>i. left (bounds (sab ! i)) \<le> x \<and> x \<le> right (bounds (sab ! i)) \<and>
                       top' (bounds (sab ! i)) \<le> y \<and> y \<le> bottom (bounds (sab ! i)));
        r = findSortableIndex x y st
    in (r = - 1 \<longleftrightarrow> (\<forall>i<length sab. \<not> inside i)) \<and>
       (r \<noteq> - 1 \<longrightarrow> 0 \<le> r \<and> r < int (length sab) \<and> inside (nat r) \<and> (\<forall>j<nat r. \<not> inside j)) \<and>
       ((\<forall>i<length sab. \<forall>j<length sab. i \<noteq> j \<longrightarrow>
           (\<forall>p q. \<not> (left (bounds (sab ! i)) \<le> p \<and> p \<le> right (bounds (sab ! i)) \<and>
                      top' (bounds (sab ! i)) \<le> q \<and> q \<le> bottom (bounds (sab ! i)) \<and>
                      left (bounds (sab ! j)) \<le> p \<and> p \<le> right (bounds (sab ! j)) \<and>
                      top' (bounds (sab ! j)) \<le> q \<and> q \<le> bottom (bounds (sab ! j))))) \<longrightarrow>
        (\<forall>i<length sab. inside i \<longrightarrow> r = int i)))"
proof -
  define sab where "sab = sortablesAndBounds st"
  define hit where "hit = (\<lambda>c::entry. x \<ge> left (bounds c) \<and> x \<le> right (bounds c) \<and>
            y \<ge> top' (bounds c) \<and> y \<le> bottom (bounds c))"
  define r where "r = findSortableIndex x y st"
  have r: "r = findIndex hit sab"
    by (simp add: r_def findSortableIndex_def hit_def sab_def)
  have c: "(r = - 1 \<and> (\<forall>i<length sab. \<not> hit (sab ! i))) \<or>
     (\<exists>i<length sab. r = int i \<and> hit (sab ! i) \<and> (\<forall>j<i. \<not> hit (sab ! j)))"
    unfolding r by (rule findIndex_cases)
  have a1: "r = - 1 \<longleftrightarrow> (\<forall>i<length sab. \<not> hit (sab ! i))"
    using c by auto
  have a2: "0 \<le> r \<and> r < int (length sab) \<and> hit (sab ! nat r) \<and> (\<forall>j<nat r. \<not> hit (sab ! j))"
    if "r \<noteq> - 1"
    using c that by auto
  have a3: "r = int i" if one: "\<forall>i<length sab. \<forall>j<length sab. i \<noteq> j \<longrightarrow> \<not> (hit (sab ! i) \<and> hit (sab ! j))"
    and i: "i < length sab" "hit (sab ! i)" for i
  proof -
    from c i obtain k where k: "k < length sab" "r = int k" "hit (sab ! k)" by auto
    with one i have "k = i" by blast
    with k show ?thesis by simp
  qed
  have a4: "\<forall>i<length sab. hit (sab ! i) \<longrightarrow> r = int i"
    if "\<forall>i<length sab. \<forall>j<length sab. i \<noteq> j \<longrightarrow>
           (\<forall>p q. \<not> (left (bounds (sab ! i)) \<le> p \<and> p \<le> right (bounds (sab ! i)) \<and>
                      top' (bounds (sab ! i)) \<le> q \<and> q \<le> bottom (bounds (sab ! i)) \<and>
                      left (bounds (sab ! j)) \<le> p \<and> p \<le> right (bounds (sab ! j)) \<and>
                      top' (bounds (sab ! j)) \<le> q \<and> q \<le> bottom (bounds (sab ! j))))"
  proof -
    from that have "\<forall>i<length sab. \<forall>j<length sab. i \<noteq> j \<longrightarrow> \<not> (hit (sab ! i) \<and> hit (sab ! j))"
      unfolding hit_def by blast
    with a3 show ?thesis by blast
  qed
  from a1 a2 a4 show ?thesis
    unfolding Let_def sab_def [symmetric] r_def [symmetric] hit_def by simp
qed

lemma dragging1_snapshot:
  "sortablesAndBounds dragging1 =
     [\<lparr>child = 1, bounds = \<lparr>left = 0, top' = 0, right = 100, bottom = 18\<rparr>\<rparr>,
      \<lparr>child = 2, bounds = \<lparr>left = 0, top' = 20, right = 100, bottom = 38\<rparr>\<rparr>,
      \<lparr>child = 0, bounds = \<lparr>left = 0, top' = 40, right = 100, bottom = 58\<rparr>\<rparr>]"
  by (simp add: dragging1_def handleDragstart_def shuffled3_order shuffled3_rect)

lemma dragging1_index: "draggingItemIndex dragging1 = Some 2"
  by (simp add: dragging1_def handleDragstart_def shuffled3_order indexOf_def findIndex_def)

theorem findSortableIndex_first_hit_witness:
  "\<not> (\<exists>i j p q. i < length (sortablesAndBounds dragging1) \<and> j < length (sortablesAndBounds dragging1) \<and> i \<noteq> j \<and>
        left (bounds (sortablesAndBounds dragging1 ! i)) \<le> p \<and> p \<le> right (bounds (sortablesAndBounds dragging1 ! i)) \<and>
        top' (bounds (sortablesAndBounds dragging1 ! i)) \<le> q \<and> q \<le> bottom (bounds (sortablesAndBounds dragging1 ! i)) \<and>
        left (bounds (sortablesAndBounds dragging1 ! j)) \<le> p \<and> p \<le> right (bounds (sortablesAndBounds dragging1 ! j)) \<and>
        top' (bounds (sortablesAndBounds dragging1 ! j)) \<le> q \<and> q \<le> bottom (bounds (sortablesAndBounds dragging1 ! j))) \<and>
   findSortableIndex 50 25 dragging1 = 1 \<and>
   findSortableIndex 50 19 dragging1 = - 1"
proof -
  let ?sab = "sortablesAndBounds dragging1"
  have len: "length ?sab = 3" by (simp add: dragging1_snapshot)
  have disjoint: "\<forall>i<length ?sab. \<forall>j<length ?sab. i \<noteq> j \<longrightarrow>
           (\<forall>p q. \<not> (left (bounds (?sab ! i)) \<le> p \<and> p \<le> right (bounds (?sab ! i)) \<and>
                      top' (bounds (?sab ! i)) \<le> q \<and> q \<le> bottom (bounds (?sab ! i)) \<and>
                      left (bounds (?sab ! j)) \<le> p \<and> p \<le> right (bounds (?sab ! j)) \<and>
                      top' (bounds (?sab ! j)) \<le> q \<and> q \<le> bottom (bounds (?sab ! j))))"
    by (auto simp: dragging1_snapshot nth_Cons' less_Suc_eq numeral_3_eq_3)
  have inside: "left (bounds (?sab ! 1)) \<le> 50 \<and> 50 \<le> right (bounds (?sab ! 1)) \<and>
                top' (bounds (?sab ! 1)) \<le> 25 \<and> 25 \<le> bottom (bounds (?sab ! 1))"
    by (simp add: dragging1_snapshot)
  have outside: "\<forall>i<length ?sab. \<not> (left (bounds (?sab ! i)) \<le> 50 \<and> 50 \<le> right (bounds (?sab ! i)) \<and>
                top' (bounds (?sab ! i)) \<le> 19 \<and> 19 \<le> bottom (bounds (?sab ! i)))"
    by (auto simp: dragging1_snapshot nth_Cons' less_Suc_eq numeral_3_eq_3)
  have first: "\<forall>i<length ?sab. left (bounds (?sab ! i)) \<le> 50 \<and> 50 \<le> right (bounds (?sab ! i)) \<and>
                top' (bounds (?sab ! i)) \<le> 25 \<and> 25 \<le> bottom (bounds (?sab ! i))
           \<longrightarrow> findSortableIndex 50 25 dragging1 = int i"
    using findSortableIndex_first_hit [of dragging1 50 25, unfolded Let_def] disjoint by blast
  have "findSortableIndex 50 25 dragging1 = int 1"
    using first [rule_format, of 1] inside len by simp
  then have hit: "findSortableIndex 50 25 dragging1 = 1" by simp
  have miss: "findSortableIndex 50 19 dragging1 = - 1"
    using findSortableIndex_first_hit [of dragging1 50 19, unfolded Let_def] outside by blast
  from disjoint hit miss show ?thesis by blast
qed

section \<open>Properties of the preview\<close>

lemma previewWrites_frame:
  "(previewWrites c v st)\<lparr>style := s, effects := e\<rparr> = st\<lparr>style := s, effects := e\<rparr>"
  by (cases v) (simp add: previewWrites_def setProperty_def)

lemma previewWrites_snapshot: "sortablesAndBounds (previewWrites c v st) = sortablesAndBounds st"
  by (cases v) (simp add: previewWrites_def setProperty_def)

lemma previewWrites_style:
  "style (previewWrites c (tx, ty, op) st) x =
     (if x = (c, ''opacity'') then NumberString op
      else if x = (c, ''transform'') then Translate tx ty
      else if x = (c, ''transition-property'') then Text ''transform''
      else if x = (c, ''transition-duration'') then Text ''100ms''
      else if x = (c, ''transition-timing-function'') then Text ''ease''
      else if x = (c, ''transition-delay'') then Text ''0s''
      else if x = (c, ''transition-behavior'') then Text ''normal''
      else style st x)"
  by (simp add: previewWrites_def setProperty_def transitionLonghands_def)

lemma previewWrites_effects:
  "effects (previewWrites c (tx, ty, op) st) = effects st @
     [SetProperty c ''transition'' (Text ''transform 100ms''),
      SetProperty c ''transform'' (Translate tx ty),
      SetProperty c ''opacity'' (NumberString op)]"
  by (simp add: previewWrites_def setProperty_def)

lemma previewLoop_frame:
  "(state_of (previewLoop d c lo hi i st))\<lparr>style := s, effects := e\<rparr> = st\<lparr>style := s, effects := e\<rparr>"
proof (induction d c lo hi i st rule: previewLoop.induct)
  case (1 d c lo hi i st)
  show ?case
  proof (cases "i < length (sortablesAndBounds st)")
    case False
    then show ?thesis by (simp add: previewLoop.simps [of d c lo hi i st])
  next
    case True
    show ?thesis
    proof (cases "previewValues (sortablesAndBounds st) d c lo hi i")
      case (Inl err)
      with True show ?thesis by (simp add: previewLoop.simps [of d c lo hi i st])
    next
      case (Inr v)
      from "1.IH" [OF True Inr] Inr True show ?thesis
        by (simp add: previewLoop.simps [of d c lo hi i st] previewWrites_frame)
    qed
  qed
qed

lemma previewLoop_untouched:
  "e \<notin> child ` set (drop i (sortablesAndBounds st)) \<or> p \<notin> {''transition-property'', ''transition-duration'', ''transition-timing-function'',
       ''transition-delay'', ''transition-behavior'', ''transform'', ''opacity''} \<Longrightarrow>
   style (state_of (previewLoop d c lo hi i st)) (e, p) = style st (e, p)"
proof (induction d c lo hi i st rule: previewLoop.induct)
  case (1 d c lo hi i st)
  show ?case
  proof (cases "i < length (sortablesAndBounds st)")
    case False
    then show ?thesis by (simp add: previewLoop.simps [of d c lo hi i st])
  next
    case True
    show ?thesis
    proof (cases "previewValues (sortablesAndBounds st) d c lo hi i")
      case (Inl err)
      with True show ?thesis by (simp add: previewLoop.simps [of d c lo hi i st])
    next
      case (Inr v)
      obtain tx ty op where v: "v = (tx, ty, op)" by (cases v) auto
      from True have split: "drop i (sortablesAndBounds st) =
          sortablesAndBounds st ! i # drop (i + 1) (sortablesAndBounds st)"
        by (simp add: Cons_nth_drop_Suc)
      from "1.prems" have here: "style (previewWrites (child (sortablesAndBounds st ! i)) v st) (e, p) = style st (e, p)"
        unfolding v split by (auto simp: previewWrites_style)
      from "1.prems" have later: "e \<notin> child ` set (drop (i + 1) (sortablesAndBounds st)) \<or>
          p \<notin> {''transition-property'', ''transition-duration'', ''transition-timing-function'',
       ''transition-delay'', ''transition-behavior'', ''transform'', ''opacity''}"
        unfolding split by auto
      from "1.IH" [OF True Inr] later here Inr True show ?thesis
        by (simp add: previewLoop.simps [of d c lo hi i st] previewWrites_snapshot)
    qed
  qed
qed

lemma previewLoop_effects:
  "\<exists>ws. effects (state_of (previewLoop d c lo hi i st)) = effects st @ ws \<and>
     (\<forall>w\<in>set ws. \<exists>e p v. w = SetProperty e p v \<and> e \<in> child ` set (sortablesAndBounds st) \<and>
         p \<in> {''transition'', ''transform'', ''opacity''})"
proof (induction d c lo hi i st rule: previewLoop.induct)
  case (1 d c lo hi i st)
  show ?case
  proof (cases "i < length (sortablesAndBounds st)")
    case False
    then show ?thesis by (simp add: previewLoop.simps [of d c lo hi i st])
  next
    case True
    show ?thesis
    proof (cases "previewValues (sortablesAndBounds st) d c lo hi i")
      case (Inl err)
      with True show ?thesis by (simp add: previewLoop.simps [of d c lo hi i st])
    next
      case (Inr v)
      obtain tx ty op where v: "v = (tx, ty, op)" by (cases v) auto
      let ?c = "child (sortablesAndBounds st ! i)"
      let ?st1 = "previewWrites ?c v st"
      from "1.IH" [OF True Inr] obtain ws where
        ws: "effects (state_of (previewLoop d c lo hi (i + 1) ?st1)) = effects ?st1 @ ws"
          "\<forall>w\<in>set ws. \<exists>e p v. w = SetProperty e p v \<and> e \<in> child ` set (sortablesAndBounds ?st1) \<and>
             p \<in> {''transition'', ''transform'', ''opacity''}" by blast
      let ?ws = "[SetProperty ?c ''transition'' (Text ''transform 100ms''),
         SetProperty ?c ''transform'' (Translate tx ty), SetProperty ?c ''opacity'' (NumberString op)] @ ws"
      from True have mem: "?c \<in> child ` set (sortablesAndBounds st)" by simp
      have "effects (state_of (previewLoop d c lo hi i st)) = effects st @ ?ws"
        using ws(1) Inr True unfolding v
        by (simp add: previewLoop.simps [of d c lo hi i st] previewWrites_effects)
      moreover have "\<forall>w\<in>set ?ws. \<exists>e p v. w = SetProperty e p v \<and> e \<in> child ` set (sortablesAndBounds st) \<and>
             p \<in> {''transition'', ''transform'', ''opacity''}"
        using ws(2) mem by (auto simp: previewWrites_snapshot)
      ultimately show ?thesis by blast
    qed
  qed
qed

lemma previewValues_in_range:
  assumes "0 \<le> d" "d < int (length sab)" "0 \<le> c" "c < int (length sab)" "i < length sab"
  shows "previewValues sab d c (min d c) (max d c) i =
     Inr (if int i = d then
            (Some (left (bounds (sab ! nat c)) - left (bounds (sab ! i))),
             Some (top' (bounds (sab ! nat c)) - top' (bounds (sab ! i))), 0.1)
          else if int i < min d c \<or> int i > max d c then (Some 0, Some 0, 0.7)
          else if int i < d then
            (Some (left (bounds (sab ! (i + 1))) - left (bounds (sab ! i))),
             Some (top' (bounds (sab ! (i + 1))) - top' (bounds (sab ! i))), 1)
          else
            (Some (left (bounds (sab ! (i - 1))) - left (bounds (sab ! i))),
             Some (top' (bounds (sab ! (i - 1))) - top' (bounds (sab ! i))), 1))"
  using assms
  by (auto simp: previewValues_def arrayAt_def Let_def nat_add_distrib nat_diff_distrib)


lemma previewLoop_returns:
  assumes "\<forall>j. i \<le> j \<and> j < length (sortablesAndBounds st) \<longrightarrow>
             previewValues (sortablesAndBounds st) d c lo hi j = Inr (V j)"
  shows "\<exists>st'. previewLoop d c lo hi i st = Inr st' \<and>
     effects st' = effects st @
       concat (map (\<lambda>j. [SetProperty (child (sortablesAndBounds st ! j)) ''transition'' (Text ''transform 100ms''),
                          SetProperty (child (sortablesAndBounds st ! j)) ''transform''
                            (Translate (fst (V j)) (fst (snd (V j)))),
                          SetProperty (child (sortablesAndBounds st ! j)) ''opacity''
                            (NumberString (snd (snd (V j))))])
                 [i..<length (sortablesAndBounds st)])"
  using assms
proof (induction d c lo hi i st rule: previewLoop.induct)
  case (1 d c lo hi i st)
  show ?case
  proof (cases "i < length (sortablesAndBounds st)")
    case False
    then show ?thesis by (simp add: previewLoop.simps [of d c lo hi i st])
  next
    case True
    with "1.prems" have Vi: "previewValues (sortablesAndBounds st) d c lo hi i = Inr (V i)" by simp
    let ?st1 = "previewWrites (child (sortablesAndBounds st ! i)) (V i) st"
    have "\<forall>j. i + 1 \<le> j \<and> j < length (sortablesAndBounds ?st1) \<longrightarrow>
             previewValues (sortablesAndBounds ?st1) d c lo hi j = Inr (V j)"
      using "1.prems" by (simp add: previewWrites_snapshot)
    from "1.IH" [OF True Vi this] obtain st' where
      st': "previewLoop d c lo hi (i + 1) ?st1 = Inr st'"
        "effects st' = effects ?st1 @
       concat (map (\<lambda>j. [SetProperty (child (sortablesAndBounds st ! j)) ''transition'' (Text ''transform 100ms''),
                          SetProperty (child (sortablesAndBounds st ! j)) ''transform''
                            (Translate (fst (V j)) (fst (snd (V j)))),
                          SetProperty (child (sortablesAndBounds st ! j)) ''opacity''
                            (NumberString (snd (snd (V j))))])
                 [i + 1..<length (sortablesAndBounds st)])"
      by (auto simp: previewWrites_snapshot)
    have run: "previewLoop d c lo hi i st = Inr st'"
      using True Vi st'(1) by (simp add: previewLoop.simps [of d c lo hi i st])
    have "effects ?st1 = effects st @
        [SetProperty (child (sortablesAndBounds st ! i)) ''transition'' (Text ''transform 100ms''),
         SetProperty (child (sortablesAndBounds st ! i)) ''transform'' (Translate (fst (V i)) (fst (snd (V i)))),
         SetProperty (child (sortablesAndBounds st ! i)) ''opacity'' (NumberString (snd (snd (V i))))]"
      by (cases "V i") (simp add: previewWrites_effects)
    with st'(2) True run show ?thesis by (simp add: upt_conv_Cons)
  qed
qed

lemma previewLoop_assigned:
  assumes "\<forall>j. i \<le> j \<and> j < length (sortablesAndBounds st) \<longrightarrow>
             previewValues (sortablesAndBounds st) d c lo hi j = Inr (V j)"
    and "distinct (map child (sortablesAndBounds st))"
    and "i \<le> k" "k < length (sortablesAndBounds st)"
  shows "style (state_of (previewLoop d c lo hi i st)) (child (sortablesAndBounds st ! k), ''transition-property'') =
           Text ''transform'' \<and>
         style (state_of (previewLoop d c lo hi i st)) (child (sortablesAndBounds st ! k), ''transition-duration'') =
           Text ''100ms'' \<and>
         style (state_of (previewLoop d c lo hi i st)) (child (sortablesAndBounds st ! k), ''transform'') =
           Translate (fst (V k)) (fst (snd (V k))) \<and>
         style (state_of (previewLoop d c lo hi i st)) (child (sortablesAndBounds st ! k), ''opacity'') =
           NumberString (snd (snd (V k)))"
  using assms
proof (induction d c lo hi i st rule: previewLoop.induct)
  case (1 d c lo hi i st)
  let ?sab = "sortablesAndBounds st"
  from "1.prems" have True: "i < length ?sab" by simp
  with "1.prems" have Vi: "previewValues ?sab d c lo hi i = Inr (V i)" by simp
  let ?st1 = "previewWrites (child (?sab ! i)) (V i) st"
  have unfold: "previewLoop d c lo hi i st = previewLoop d c lo hi (i + 1) ?st1"
    using True Vi by (simp add: previewLoop.simps [of d c lo hi i st])
  show ?case
  proof (cases "k = i")
    case False
    with "1.prems" have k: "i + 1 \<le> k" by simp
    have "\<forall>j. i + 1 \<le> j \<and> j < length (sortablesAndBounds ?st1) \<longrightarrow>
             previewValues (sortablesAndBounds ?st1) d c lo hi j = Inr (V j)"
      using "1.prems" by (simp add: previewWrites_snapshot)
    from "1.IH" [OF True Vi this _ k] "1.prems" show ?thesis
      by (simp add: unfold previewWrites_snapshot)
  next
    case k: True
    from "1.prems"(2) True have "child (?sab ! i) \<notin> child ` set (drop (i + 1) ?sab)"
      by (metis Cons_nth_drop_Suc Suc_eq_plus1 distinct.simps(2) distinct_drop drop_map list.simps(9) set_map)
    then have "style (state_of (previewLoop d c lo hi (i + 1) ?st1)) (child (?sab ! i), p) =
        style ?st1 (child (?sab ! i), p)" for p
      by (intro previewLoop_untouched) (simp add: previewWrites_snapshot)
    then show ?thesis
      unfolding unfold k by (cases "V i") (simp add: previewWrites_style)
  qed
qed

lemma vertical4_rect:
  "boundingClientRect vertical4 0 = \<lparr>left = 0, top' = 0, right = 100, bottom = 18\<rparr>"
  "boundingClientRect vertical4 1 = \<lparr>left = 0, top' = 20, right = 100, bottom = 38\<rparr>"
  "boundingClientRect vertical4 (Suc 0) = \<lparr>left = 0, top' = 20, right = 100, bottom = 38\<rparr>"
  "boundingClientRect vertical4 2 = \<lparr>left = 0, top' = 40, right = 100, bottom = 58\<rparr>"
  "boundingClientRect vertical4 3 = \<lparr>left = 0, top' = 60, right = 100, bottom = 78\<rparr>"
  by (simp_all add: boundingClientRect_def vertical4_def constructed_def columnLayout_def
      orderOf_def placed_def translation_def)

lemma vertical4_children: "children vertical4 = [0, 1, 2, 3]"
  by (simp add: vertical4_def constructed_def)

lemma vertical4_order: "sortablesInVisualOrder vertical4 = [0, 1, 2, 3]"
  by (simp add: sortablesInVisualOrder_def sortables_def vertical4_children compareBounds_def
      vertical4_rect)

lemma draggingC_snapshot:
  "sortablesAndBounds draggingC =
     [\<lparr>child = 0, bounds = \<lparr>left = 0, top' = 0, right = 100, bottom = 18\<rparr>\<rparr>,
      \<lparr>child = 1, bounds = \<lparr>left = 0, top' = 20, right = 100, bottom = 38\<rparr>\<rparr>,
      \<lparr>child = 2, bounds = \<lparr>left = 0, top' = 40, right = 100, bottom = 58\<rparr>\<rparr>,
      \<lparr>child = 3, bounds = \<lparr>left = 0, top' = 60, right = 100, bottom = 78\<rparr>\<rparr>]"
  by (simp add: draggingC_def handleDragstart_def vertical4_order vertical4_rect)

lemma draggingC_index: "draggingItemIndex draggingC = Some 2"
  by (simp add: draggingC_def handleDragstart_def vertical4_order indexOf_def findIndex_def)

lemma draggingC_document:
  "children draggingC = [0, 1, 2, 3]" "style draggingC = (\<lambda>_. Text '''')" "effects draggingC = []"
  by (simp_all add: draggingC_def handleDragstart_def vertical4_def constructed_def)

text \<open>
  Claim C1. Let the dragged index \<open>d\<close> be defined and lie in the snapshot, and let the
  candidate \<open>c\<close> be what a hit test gives, an index of the snapshot or the sentinel
  \<open>- 1\<close>, and not the sentinel. Then \<^verbatim>\<open>previewNewPositions\<close> returns normally and,
  for each entry \<open>i\<close>
  in order, sets the transition, a transform \<open>tr i\<close> and an opacity \<open>op i\<close> on the
  entry's item, where: the dragged entry is translated by the candidate entry's position
  minus its own, with opacity 0.1; an entry below \<open>min d c\<close> or above \<open>max d c\<close> gets
  a zero translation and opacity 0.7; an entry from \<open>min d c\<close> up to before \<open>d\<close> is
  translated to the position of entry \<open>i + 1\<close>, with opacity 1; an entry after \<open>d\<close> up
  to \<open>max d c\<close> is translated to the position of entry \<open>i - 1\<close>, with opacity 1. When
  the snapshot holds each item once, these are the values the items' styles hold after
  the call, the transition being stored as its longhands.
\<close>

theorem previewNewPositions_assigns:
  assumes "sortablesAndBounds st = sab"
    and "draggingItemIndex st = Some d"
    and "0 \<le> d \<and> d < int (length sab)"
    and "c = - 1 \<or> (0 \<le> c \<and> c < int (length sab))"
    and "c \<noteq> - 1"
  shows "\<exists>st' tr op.
     previewNewPositions c st = Inr st' \<and>
     effects st' = effects st @
       concat (map (\<lambda>i. [SetProperty (child (sab ! i)) ''transition'' (Text ''transform 100ms''),
                          SetProperty (child (sab ! i)) ''transform'' (tr i),
                          SetProperty (child (sab ! i)) ''opacity'' (NumberString (op i))])
                 [0..<length sab]) \<and>
     (distinct (map child sab) \<longrightarrow>
        (\<forall>i<length sab.
           style st' (child (sab ! i), ''transition-property'') = Text ''transform'' \<and>
           style st' (child (sab ! i), ''transition-duration'') = Text ''100ms'' \<and>
           style st' (child (sab ! i), ''transform'') = tr i \<and>
           style st' (child (sab ! i), ''opacity'') = NumberString (op i))) \<and>
     (\<forall>i<length sab.
        (int i = d \<longrightarrow>
           tr i = Translate (Some (left (bounds (sab ! nat c)) - left (bounds (sab ! i))))
                            (Some (top' (bounds (sab ! nat c)) - top' (bounds (sab ! i)))) \<and>
           op i = 0.1) \<and>
        (int i < min d c \<or> max d c < int i \<longrightarrow>
           tr i = Translate (Some 0) (Some 0) \<and> op i = 0.7) \<and>
        (min d c \<le> int i \<and> int i < d \<longrightarrow>
           tr i = Translate (Some (left (bounds (sab ! (i + 1))) - left (bounds (sab ! i))))
                            (Some (top' (bounds (sab ! (i + 1))) - top' (bounds (sab ! i)))) \<and>
           op i = 1) \<and>
        (d < int i \<and> int i \<le> max d c \<longrightarrow>
           tr i = Translate (Some (left (bounds (sab ! (i - 1))) - left (bounds (sab ! i))))
                            (Some (top' (bounds (sab ! (i - 1))) - top' (bounds (sab ! i)))) \<and>
           op i = 1))"
    (is "\<exists>st' tr op. ?assigns st' tr op" is "\<exists>st' tr op. ?returns st' \<and> ?logs st' tr op \<and> ?stores st' tr op \<and> ?table tr op")
proof -
  define V where "V = (\<lambda>i.
          if int i = d then
            (Some (left (bounds (sab ! nat c)) - left (bounds (sab ! i))),
             Some (top' (bounds (sab ! nat c)) - top' (bounds (sab ! i))), 0.1 :: real)
          else if int i < min d c \<or> int i > max d c then (Some 0, Some 0, 0.7)
          else if int i < d then
            (Some (left (bounds (sab ! (i + 1))) - left (bounds (sab ! i))),
             Some (top' (bounds (sab ! (i + 1))) - top' (bounds (sab ! i))), 1)
          else
            (Some (left (bounds (sab ! (i - 1))) - left (bounds (sab ! i))),
             Some (top' (bounds (sab ! (i - 1))) - top' (bounds (sab ! i))), 1))"
  define tr where "tr = (\<lambda>i. Translate (fst (V i)) (fst (snd (V i))))"
  define op where "op = (\<lambda>i. snd (snd (V i)))"
  from assms have range: "0 \<le> d" "d < int (length sab)" "0 \<le> c" "c < int (length sab)"
    by auto
  have vals: "\<forall>j. 0 \<le> j \<and> j < length (sortablesAndBounds st) \<longrightarrow>
      previewValues (sortablesAndBounds st) d c (min d c) (max d c) j = Inr (V j)"
    using assms(1) range by (simp add: V_def previewValues_in_range)
  have call: "previewNewPositions c st = previewLoop d c (min d c) (max d c) 0 st"
    using assms(2,5) by (simp add: previewNewPositions_def Let_def)
  from previewLoop_returns [OF vals] obtain st' where
    st': "previewLoop d c (min d c) (max d c) 0 st = Inr st'"
      "effects st' = effects st @
       concat (map (\<lambda>i. [SetProperty (child (sab ! i)) ''transition'' (Text ''transform 100ms''),
                          SetProperty (child (sab ! i)) ''transform'' (tr i),
                          SetProperty (child (sab ! i)) ''opacity'' (NumberString (op i))])
                 [0..<length sab])"
    unfolding tr_def op_def assms(1) by blast
  have assigned: "style st' (child (sab ! i), ''transition-property'') = Text ''transform'' \<and>
           style st' (child (sab ! i), ''transition-duration'') = Text ''100ms'' \<and>
           style st' (child (sab ! i), ''transform'') = tr i \<and>
           style st' (child (sab ! i), ''opacity'') = NumberString (op i)"
    if "distinct (map child sab)" "i < length sab" for i
    using previewLoop_assigned [OF vals, of i] that st'(1)
    by (simp add: assms(1) tr_def op_def)
  from call st'(1) have returned: "?returns st'" by simp
  from assigned have stored: "?stores st' tr op" by blast
  have table: "?table tr op" by (auto simp: tr_def op_def V_def)
  from returned st'(2) stored table have "?assigns st' tr op" by (intro conjI)
  then show ?thesis by (intro exI)
qed

theorem previewNewPositions_assigns_witness:
  "draggingItemIndex draggingC = Some 2 \<and>
   length (sortablesAndBounds draggingC) = 4 \<and>
   distinct (map child (sortablesAndBounds draggingC)) \<and>
   (\<exists>st'. previewNewPositions 0 draggingC = Inr st' \<and>
      style st' (0, ''transform'') = Translate (Some 0) (Some 20) \<and>
      style st' (0, ''opacity'') = NumberString 1 \<and>
      style st' (1, ''transform'') = Translate (Some 0) (Some 20) \<and>
      style st' (1, ''opacity'') = NumberString 1 \<and>
      style st' (2, ''transform'') = Translate (Some 0) (Some (- 40)) \<and>
      style st' (2, ''opacity'') = NumberString 0.1 \<and>
      style st' (3, ''transform'') = Translate (Some 0) (Some 0) \<and>
      style st' (3, ''opacity'') = NumberString 0.7)"
proof -
  let ?sab = "sortablesAndBounds draggingC"
  have len: "length ?sab = 4" by (simp add: draggingC_snapshot)
  have dist: "distinct (map child ?sab)" by (simp add: draggingC_snapshot)
  have "0 \<le> (2::int) \<and> 2 < int (length ?sab)"
    "(0::int) = - 1 \<or> (0 \<le> (0::int) \<and> 0 < int (length ?sab))" "(0::int) \<noteq> - 1"
    by (simp_all add: len)
  from previewNewPositions_assigns [OF refl draggingC_index this]
  obtain st' tr op where
    ret: "previewNewPositions 0 draggingC = Inr st'"
    and stored: "distinct (map child ?sab) \<longrightarrow>
        (\<forall>i<length ?sab.
           style st' (child (?sab ! i), ''transition-property'') = Text ''transform'' \<and>
           style st' (child (?sab ! i), ''transition-duration'') = Text ''100ms'' \<and>
           style st' (child (?sab ! i), ''transform'') = tr i \<and>
           style st' (child (?sab ! i), ''opacity'') = NumberString (op i))"
    and table: "\<forall>i<length ?sab.
        (int i = 2 \<longrightarrow>
           tr i = Translate (Some (left (bounds (?sab ! nat 0)) - left (bounds (?sab ! i))))
                            (Some (top' (bounds (?sab ! nat 0)) - top' (bounds (?sab ! i)))) \<and>
           op i = 0.1) \<and>
        (int i < min 2 0 \<or> max 2 0 < int i \<longrightarrow>
           tr i = Translate (Some 0) (Some 0) \<and> op i = 0.7) \<and>
        (min 2 0 \<le> int i \<and> int i < 2 \<longrightarrow>
           tr i = Translate (Some (left (bounds (?sab ! (i + 1))) - left (bounds (?sab ! i))))
                            (Some (top' (bounds (?sab ! (i + 1))) - top' (bounds (?sab ! i)))) \<and>
           op i = 1) \<and>
        (2 < int i \<and> int i \<le> max 2 0 \<longrightarrow>
           tr i = Translate (Some (left (bounds (?sab ! (i - 1))) - left (bounds (?sab ! i))))
                            (Some (top' (bounds (?sab ! (i - 1))) - top' (bounds (?sab ! i)))) \<and>
           op i = 1)"
    by (elim exE conjE) (rule that)
  from table [rule_format, of 0] table [rule_format, of 1] table [rule_format, of 2]
    table [rule_format, of 3]
  have tr: "tr 0 = Translate (Some 0) (Some 20)" "op 0 = 1"
    "tr 1 = Translate (Some 0) (Some 20)" "op 1 = 1"
    "tr 2 = Translate (Some 0) (Some (- 40))" "op 2 = 0.1"
    "tr 3 = Translate (Some 0) (Some 0)" "op 3 = 0.7"
    by (simp_all add: draggingC_snapshot)
  from stored dist have st: "\<forall>i<length ?sab.
           style st' (child (?sab ! i), ''transform'') = tr i \<and>
           style st' (child (?sab ! i), ''opacity'') = NumberString (op i)" by blast
  from st [rule_format, of 0] st [rule_format, of 1] st [rule_format, of 2] st [rule_format, of 3] tr
  have "style st' (0, ''transform'') = Translate (Some 0) (Some 20) \<and>
      style st' (0, ''opacity'') = NumberString 1 \<and>
      style st' (1, ''transform'') = Translate (Some 0) (Some 20) \<and>
      style st' (1, ''opacity'') = NumberString 1 \<and>
      style st' (2, ''transform'') = Translate (Some 0) (Some (- 40)) \<and>
      style st' (2, ''opacity'') = NumberString 0.1 \<and>
      style st' (3, ''transform'') = Translate (Some 0) (Some 0) \<and>
      style st' (3, ''opacity'') = NumberString 0.7"
    by (simp add: draggingC_snapshot)
  with ret draggingC_index len dist show ?thesis by blast
qed

text \<open>
  Claim C7. Whatever the snapshot, the dragged index and the candidate index, and whether
  it returns or throws, \<^verbatim>\<open>previewNewPositions\<close> leaves the snapshot and the child
  sequence as they were; it leaves every part of the state but the inline styles and the
  log of calls as it was; the only calls it makes are \<^verbatim>\<open>setProperty\<close> calls for
  \<^verbatim>\<open>transition\<close>, \<^verbatim>\<open>transform\<close> and \<^verbatim>\<open>opacity\<close> of items of the snapshot,
  and the only declarations these change are those of the items of the snapshot for
  \<^verbatim>\<open>transform\<close>, \<^verbatim>\<open>opacity\<close> and the \<^verbatim>\<open>transition\<close> shorthand, which is
  stored as its longhands.
\<close>

theorem previewNewPositions_frame:
  "sortablesAndBounds (state_of (previewNewPositions newIndex st)) = sortablesAndBounds st \<and>
   children (state_of (previewNewPositions newIndex st)) = children st \<and>
   (state_of (previewNewPositions newIndex st))\<lparr>style := style st, effects := effects st\<rparr> = st \<and>
   (\<forall>e p. e \<notin> child ` set (sortablesAndBounds st) \<or>
          p \<notin> {''transition'', ''transition-property'', ''transition-duration'',
               ''transition-timing-function'', ''transition-delay'', ''transition-behavior'',
               ''transform'', ''opacity''} \<longrightarrow>
      style (state_of (previewNewPositions newIndex st)) (e, p) = style st (e, p)) \<and>
   (\<exists>ws. effects (state_of (previewNewPositions newIndex st)) = effects st @ ws \<and>
      (\<forall>w\<in>set ws. \<exists>e p v. w = SetProperty e p v \<and> e \<in> child ` set (sortablesAndBounds st) \<and>
          p \<in> {''transition'', ''transform'', ''opacity''}))"
proof (cases "\<exists>d. draggingItemIndex st = Some d \<and> newIndex \<noteq> - 1")
  case False
  then have "previewNewPositions newIndex st = Inr st"
    by (auto simp: previewNewPositions_def split: option.splits)
  then show ?thesis by simp
next
  case True
  then obtain d where call:
    "previewNewPositions newIndex st = previewLoop d newIndex (min d newIndex) (max d newIndex) 0 st"
    by (auto simp: previewNewPositions_def Let_def)
  let ?st' = "state_of (previewLoop d newIndex (min d newIndex) (max d newIndex) 0 st)"
  have frame: "?st'\<lparr>style := style st, effects := effects st\<rparr> = st"
    by (simp add: previewLoop_frame)
  have "sortablesAndBounds (?st'\<lparr>style := style st, effects := effects st\<rparr>) = sortablesAndBounds st"
    "children (?st'\<lparr>style := style st, effects := effects st\<rparr>) = children st"
    by (simp_all only: frame)
  then have fields: "sortablesAndBounds ?st' = sortablesAndBounds st" "children ?st' = children st"
    by simp_all
  have untouched: "style ?st' (e, p) = style st (e, p)"
    if "e \<notin> child ` set (sortablesAndBounds st) \<or>
          p \<notin> {''transition'', ''transition-property'', ''transition-duration'',
               ''transition-timing-function'', ''transition-delay'', ''transition-behavior'',
               ''transform'', ''opacity''}" for e p
    using that by (intro previewLoop_untouched) auto
  from previewLoop_effects [of d newIndex "min d newIndex" "max d newIndex" 0 st]
  have log: "\<exists>ws. effects ?st' = effects st @ ws \<and>
      (\<forall>w\<in>set ws. \<exists>e p v. w = SetProperty e p v \<and> e \<in> child ` set (sortablesAndBounds st) \<and>
          p \<in> {''transition'', ''transform'', ''opacity''})" .
  show ?thesis
    unfolding call
  proof (intro conjI allI impI)
    show "sortablesAndBounds ?st' = sortablesAndBounds st" by (rule fields)
    show "children ?st' = children st" by (rule fields)
    show "?st'\<lparr>style := style st, effects := effects st\<rparr> = st" by (rule frame)
    show "\<exists>ws. effects ?st' = effects st @ ws \<and>
      (\<forall>w\<in>set ws. \<exists>e p v. w = SetProperty e p v \<and> e \<in> child ` set (sortablesAndBounds st) \<and>
          p \<in> {''transition'', ''transform'', ''opacity''})" by (rule log)
  qed (rule untouched)
qed

theorem previewNewPositions_frame_witness:
  "children (state_of (previewNewPositions 0 draggingC)) = [0, 1, 2, 3] \<and>
   sortablesAndBounds (state_of (previewNewPositions 0 draggingC)) = sortablesAndBounds draggingC \<and>
   style (state_of (previewNewPositions 0 draggingC)) (2, ''order'') = Text '''' \<and>
   style (state_of (previewNewPositions 0 draggingC)) (7, ''opacity'') = Text ''''"
proof -
  note frame = previewNewPositions_frame [of 0 draggingC]
  from frame have f1: "sortablesAndBounds (state_of (previewNewPositions 0 draggingC)) = sortablesAndBounds draggingC"
    by (rule conjunct1)
  from frame have f2: "children (state_of (previewNewPositions 0 draggingC)) = children draggingC"
    by (elim conjE)
  note f3 = frame [THEN conjunct2, THEN conjunct2, THEN conjunct2, THEN conjunct1, rule_format]
  have "style (state_of (previewNewPositions 0 draggingC)) (2, ''order'') = style draggingC (2, ''order'')"
    by (rule f3) simp
  moreover have "style (state_of (previewNewPositions 0 draggingC)) (7, ''opacity'') = style draggingC (7, ''opacity'')"
    by (rule f3) (simp add: draggingC_snapshot)
  ultimately show ?thesis using f1 f2 by (simp add: draggingC_document)
qed

section \<open>Properties of the reset\<close>

lemma resetChild_frame:
  "(resetChild c i st)\<lparr>style := s, effects := e\<rparr> = st\<lparr>style := s, effects := e\<rparr>"
  by (simp add: resetChild_def setProperty_def)

lemma reset_loop_frame:
  "(forEachIndexed resetChild cs i st)\<lparr>style := s, effects := e\<rparr> = st\<lparr>style := s, effects := e\<rparr>"
proof (induction cs arbitrary: i st)
  case Nil
  then show ?case by simp
next
  case (Cons c cs)
  have "(forEachIndexed resetChild (c # cs) i st)\<lparr>style := s, effects := e\<rparr> =
        (resetChild c i st)\<lparr>style := s, effects := e\<rparr>"
    using Cons.IH [of "i + 1" "resetChild c i st"] by simp
  then show ?case by (simp only: resetChild_frame)
qed

lemma resetChild_effects:
  "effects (resetChild c i st) = effects st @
     [SetProperty c ''transition-duration'' (Text ''0ms''), SetProperty c ''transform'' (Text ''''),
      SetProperty c ''opacity'' (Text ''''), SetProperty c ''order'' (NumberString (real i))]"
  by (simp add: resetChild_def setProperty_def)

lemma reset_loop_effects:
  "\<exists>ws. (\<forall>st. effects (forEachIndexed resetChild cs i st) = effects st @ ws) \<and>
        (\<forall>w\<in>set ws. \<exists>e p v. w = SetProperty e p v)"
proof (induction cs arbitrary: i)
  case Nil
  then show ?case by simp
next
  case (Cons c cs)
  from Cons.IH [of "i + 1"] obtain ws where
    ws: "\<forall>st. effects (forEachIndexed resetChild cs (i + 1) st) = effects st @ ws"
        "\<forall>w\<in>set ws. \<exists>e p v. w = SetProperty e p v" by blast
  let ?ws = "[SetProperty c ''transition-duration'' (Text ''0ms''), SetProperty c ''transform'' (Text ''''),
      SetProperty c ''opacity'' (Text ''''), SetProperty c ''order'' (NumberString (real i))] @ ws"
  have "\<forall>st. effects (forEachIndexed resetChild (c # cs) i st) = effects st @ ?ws"
    using ws(1) by (simp add: resetChild_effects)
  moreover have "\<forall>w\<in>set ?ws. \<exists>e p v. w = SetProperty e p v"
    using ws(2) by auto
  ultimately show ?case by blast
qed

lemma resetChild_style:
  "style (resetChild c i st) x =
     (if x = (c, ''order'') then NumberString (real i)
      else if x = (c, ''opacity'') then Text ''''
      else if x = (c, ''transform'') then Text ''''
      else if x = (c, ''transition-duration'') then Text ''0ms''
      else style st x)"
  by (simp add: resetChild_def setProperty_def)

lemma reset_loop_untouched:
  "fst x \<notin> set cs \<or> snd x \<notin> {''transition-duration'', ''transform'', ''opacity'', ''order''} \<Longrightarrow>
   style (forEachIndexed resetChild cs i st) x = style st x"
proof (induction cs arbitrary: i st)
  case Nil
  then show ?case by simp
next
  case (Cons c cs)
  from Cons.prems have x: "fst x \<notin> set cs \<or> snd x \<notin> {''transition-duration'', ''transform'', ''opacity'', ''order''}"
    by auto
  from Cons.prems have "style (resetChild c i st) x = style st x"
    by (cases x) (auto simp: resetChild_style)
  with Cons.IH [OF x, of "i + 1" "resetChild c i st"] show ?case by simp
qed

lemma reset_loop_style_cong:
  "(\<And>x. fst x \<notin> set cs \<or> snd x \<notin> {''transition-duration'', ''transform'', ''opacity'', ''order''}
       \<Longrightarrow> style s1 x = style s2 x) \<Longrightarrow>
   style (forEachIndexed resetChild cs i s1) = style (forEachIndexed resetChild cs i s2)"
proof (induction cs arbitrary: i s1 s2)
  case Nil
  then show ?case by (simp add: fun_eq_iff)
next
  case (Cons c cs)
  have "style (resetChild c i s1) x = style (resetChild c i s2) x"
    if "fst x \<notin> set cs \<or> snd x \<notin> {''transition-duration'', ''transform'', ''opacity'', ''order''}" for x
  proof (cases "fst x = c \<and> snd x \<in> {''transition-duration'', ''transform'', ''opacity'', ''order''}")
    case True
    then show ?thesis by (cases x) (auto simp: resetChild_style)
  next
    case False
    with that have "style s1 x = style s2 x" by (intro Cons.prems) auto
    with False show ?thesis by (cases x) (auto simp: resetChild_style)
  qed
  from Cons.IH [of "resetChild c i s1" "resetChild c i s2" "i + 1", OF this] show ?case by simp
qed

lemma reset_loop_cleared:
  "c \<in> set cs \<Longrightarrow>
   style (forEachIndexed resetChild cs i st) (c, ''transform'') = Text '''' \<and>
   style (forEachIndexed resetChild cs i st) (c, ''opacity'') = Text '''' \<and>
   style (forEachIndexed resetChild cs i st) (c, ''transition-duration'') = Text ''0ms''"
proof (induction cs arbitrary: i st)
  case Nil
  then show ?case by simp
next
  case (Cons c' cs)
  show ?case
  proof (cases "c \<in> set cs")
    case True
    from Cons.IH [OF True, of "i + 1" "resetChild c' i st"] show ?thesis by simp
  next
    case False
    with Cons.prems have "c' = c" by simp
    with False show ?thesis by (simp add: reset_loop_untouched resetChild_style)
  qed
qed


lemma reset_loop_order_some:
  "c \<in> set cs \<Longrightarrow>
   \<exists>k<length cs. cs ! k = c \<and>
     style (forEachIndexed resetChild cs i st) (c, ''order'') = NumberString (real (i + k))"
proof (induction cs arbitrary: i st)
  case Nil
  then show ?case by simp
next
  case (Cons c' cs)
  show ?case
  proof (cases "c \<in> set cs")
    case True
    from Cons.IH [OF True, of "i + 1" "resetChild c' i st"] obtain k where
      "k < length cs" "cs ! k = c"
      "style (forEachIndexed resetChild cs (i + 1) (resetChild c' i st)) (c, ''order'') =
         NumberString (real (i + 1 + k))"
      by blast
    then have "Suc k < length (c' # cs) \<and> (c' # cs) ! Suc k = c \<and>
      style (forEachIndexed resetChild (c' # cs) i st) (c, ''order'') = NumberString (real (i + Suc k))"
      by simp
    then show ?thesis by blast
  next
    case False
    with Cons.prems have "c' = c" by simp
    with False have "0 < length (c' # cs) \<and> (c' # cs) ! 0 = c \<and>
      style (forEachIndexed resetChild (c' # cs) i st) (c, ''order'') = NumberString (real (i + 0))"
      by (simp add: reset_loop_untouched resetChild_style)
    then show ?thesis by blast
  qed
qed

lemma compareBounds_cong:
  "boundingClientRect s1 = boundingClientRect s2 \<Longrightarrow> compareBounds s1 = compareBounds s2"
  by (simp add: compareBounds_def fun_eq_iff)

lemma sortablesInVisualOrder_cong:
  "children s1 = children s2 \<Longrightarrow> boundingClientRect s1 = boundingClientRect s2 \<Longrightarrow>
   sortablesInVisualOrder s1 = sortablesInVisualOrder s2"
  using compareBounds_cong [of s1 s2] by (simp add: sortablesInVisualOrder_def sortables_def)


lemma reset_loop_log:
  "effects (forEachIndexed resetChild cs i st) = effects st @
     concat (map (\<lambda>k. [SetProperty (cs ! k) ''transition-duration'' (Text ''0ms''),
                        SetProperty (cs ! k) ''transform'' (Text ''''),
                        SetProperty (cs ! k) ''opacity'' (Text ''''),
                        SetProperty (cs ! k) ''order'' (NumberString (real (i + k)))])
               [0..<length cs])"
proof (induction cs arbitrary: i st)
  case Nil
  then show ?case by simp
next
  case (Cons c cs)
  have "[0..<length (c # cs)] = 0 # map Suc [0..<length cs]"
    by (simp add: upt_conv_Cons map_Suc_upt del: upt_Suc)
  then show ?case
    by (simp add: Cons.IH resetChild_effects comp_def add.commute add.left_commute del: upt_Suc)
qed


lemma distinct_sortablesInVisualOrder:
  "distinct (children st) \<Longrightarrow> distinct (sortablesInVisualOrder st)"
  unfolding sortablesInVisualOrder_def sortables_def
  using mset_eq_imp_distinct_iff [OF mset_sortBy] by blast

lemma set_sortablesInVisualOrder: "set (sortablesInVisualOrder st) = set (children st)"
  unfolding sortablesInVisualOrder_def sortables_def
  by (rule mset_eq_setD [OF mset_sortBy])

lemma length_sortablesInVisualOrder: "length (sortablesInVisualOrder st) = length (children st)"
  unfolding sortablesInVisualOrder_def sortables_def
  by (rule mset_eq_length [OF mset_sortBy])












section \<open>Properties of the drag event handlers\<close>

text \<open>
  What a drag start establishes: the snapshot lists the children in visual order, each
  once when the children are pairwise different, and the dragged index of a child of the
  list lies in the snapshot. What the hit test returns is the sentinel or an index of
  the snapshot.
\<close>

lemma handleDragstart_snapshot:
  "map child (sortablesAndBounds (handleDragstart c st)) = sortablesInVisualOrder st"
  by (simp add: handleDragstart_def comp_def)

lemma handleDragstart_distinct:
  "distinct (children st) \<Longrightarrow> distinct (map child (sortablesAndBounds (handleDragstart c st)))"
  by (simp only: handleDragstart_snapshot distinct_sortablesInVisualOrder)

lemma handleDragstart_index:
  assumes "c \<in> set (children st)"
  shows "\<exists>d. draggingItemIndex (handleDragstart c st) = Some d \<and> 0 \<le> d \<and>
           d < int (length (sortablesAndBounds (handleDragstart c st)))"
proof -
  let ?cs = "sortablesInVisualOrder st"
  from assms have "c \<in> set ?cs" by (simp add: set_sortablesInVisualOrder)
  then obtain i where "i < length ?cs" "?cs ! i = c" by (auto simp: in_set_conv_nth)
  with findIndex_cases [of "\<lambda>y. y = c" ?cs]
  have "0 \<le> indexOf ?cs c \<and> indexOf ?cs c < int (length ?cs)"
    by (auto simp: indexOf_def)
  then show ?thesis by (simp add: handleDragstart_def)
qed

lemma findSortableIndex_range:
  "findSortableIndex x y st = - 1 \<or>
   (0 \<le> findSortableIndex x y st \<and> findSortableIndex x y st < int (length (sortablesAndBounds st)))"
  using findIndex_cases
    [of "\<lambda>c. x \<ge> left (bounds c) \<and> x \<le> right (bounds c) \<and> y \<ge> top' (bounds c) \<and> y \<le> bottom (bounds c)"
      "sortablesAndBounds st"]
  by (auto simp: findSortableIndex_def)

lemma reset_loop_log_irrelevant:
  "(forEachIndexed resetChild cs i (st\<lparr>effects := e1\<rparr>))\<lparr>effects := e\<rparr> =
   (forEachIndexed resetChild cs i st)\<lparr>effects := e\<rparr>"
proof -
  have same: "(st\<lparr>effects := e1\<rparr>)\<lparr>style := s, effects := e\<rparr> = st\<lparr>style := s, effects := e\<rparr>" for s
    by simp
  have "style (forEachIndexed resetChild cs i (st\<lparr>effects := e1\<rparr>)) = style (forEachIndexed resetChild cs i st)"
    by (rule reset_loop_style_cong) simp
  moreover have "(forEachIndexed resetChild cs i (st\<lparr>effects := e1\<rparr>))\<lparr>style := s, effects := e\<rparr> =
      (forEachIndexed resetChild cs i st)\<lparr>style := s, effects := e\<rparr>" for s
    by (simp only: reset_loop_frame same)
  ultimately have "(forEachIndexed resetChild cs i (st\<lparr>effects := e1\<rparr>))
        \<lparr>style := style (forEachIndexed resetChild cs i (st\<lparr>effects := e1\<rparr>)), effects := e\<rparr> =
      (forEachIndexed resetChild cs i st)\<lparr>style := style (forEachIndexed resetChild cs i st), effects := e\<rparr>"
    by simp
  then show ?thesis by simp
qed

lemma dispatchEvent_order:
  "sortablesInVisualOrder (dispatchEvent name detail st) = sortablesInVisualOrder st"
  by (rule sortablesInVisualOrder_cong)
     (simp_all add: dispatchEvent_def boundingClientRect_def fun_eq_iff)

lemma handleDragend_active:
  "draggingItemIndex st \<noteq> Some (- 1) \<Longrightarrow>
   handleDragend st =
     forEachIndexed resetChild (sortablesInVisualOrder st) 0
       (st\<lparr>effects := effects st @ [DispatchEvent ''sort'' (sortablesInVisualOrder st)]\<rparr>)"
  by (simp add: handleDragend_def resetPreviewPositions_def dispatchEvent_order)
     (simp add: dispatchEvent_def)

text \<open>
  Claim C5. When the dragged index is not \<open>- 1\<close>, \<^verbatim>\<open>handleDragend\<close> makes these calls,
  in this order and no other: one \<^verbatim>\<open>dispatchEvent\<close> of a \<open>sort\<close> event whose payload
  is the visual order of the children by their current bounding boxes, and then, for the
  children in that order, the four \<^verbatim>\<open>setProperty\<close> calls of the reset, which set the
  transition duration to \<^verbatim>\<open>0ms\<close>, clear transform and opacity, and set \<^verbatim>\<open>order\<close> to
  the child's position. Afterwards every child's styles hold these values, and apart from
  the log of calls the state is what \<^verbatim>\<open>resetPreviewPositions\<close> makes of the state
  before. The calls, the payload among them, do not depend on the snapshot.
\<close>

theorem handleDragend_emits_then_resets:
  assumes "draggingItemIndex st \<noteq> Some (- 1)"
  shows "effects (handleDragend st) =
           effects st @
           DispatchEvent ''sort'' (sortablesInVisualOrder st) #
           concat (map (\<lambda>i. [SetProperty (sortablesInVisualOrder st ! i) ''transition-duration'' (Text ''0ms''),
                              SetProperty (sortablesInVisualOrder st ! i) ''transform'' (Text ''''),
                              SetProperty (sortablesInVisualOrder st ! i) ''opacity'' (Text ''''),
                              SetProperty (sortablesInVisualOrder st ! i) ''order'' (NumberString (real i))])
                     [0..<length (children st)]) \<and>
         (\<forall>c\<in>set (children st).
            style (handleDragend st) (c, ''transform'') = Text '''' \<and>
            style (handleDragend st) (c, ''opacity'') = Text '''' \<and>
            style (handleDragend st) (c, ''transition-duration'') = Text ''0ms'' \<and>
            (\<exists>i<length (children st). sortablesInVisualOrder st ! i = c \<and>
               style (handleDragend st) (c, ''order'') = NumberString (real i))) \<and>
         (handleDragend st)\<lparr>effects := []\<rparr> = (resetPreviewPositions st)\<lparr>effects := []\<rparr> \<and>
         (\<forall>snapshot. effects (handleDragend (st\<lparr>sortablesAndBounds := snapshot\<rparr>)) =
                     effects (handleDragend st))"
proof (intro conjI allI ballI)
  let ?cs = "sortablesInVisualOrder st"
  let ?ev = "DispatchEvent ''sort'' ?cs"
  let ?emitted = "st\<lparr>effects := effects st @ [?ev]\<rparr>"
  note active = handleDragend_active [OF assms]
  show log: "effects (handleDragend st) =
           effects st @ ?ev #
           concat (map (\<lambda>i. [SetProperty (?cs ! i) ''transition-duration'' (Text ''0ms''),
                              SetProperty (?cs ! i) ''transform'' (Text ''''),
                              SetProperty (?cs ! i) ''opacity'' (Text ''''),
                              SetProperty (?cs ! i) ''order'' (NumberString (real i))])
                     [0..<length (children st)])"
    by (simp add: active reset_loop_log length_sortablesInVisualOrder)
  show "(handleDragend st)\<lparr>effects := []\<rparr> = (resetPreviewPositions st)\<lparr>effects := []\<rparr>"
    by (simp only: active resetPreviewPositions_def reset_loop_log_irrelevant)
  {
    fix c assume "c \<in> set (children st)"
    then have mem: "c \<in> set ?cs" by (simp add: set_sortablesInVisualOrder)
    from reset_loop_cleared [OF mem, of 0 ?emitted]
    show "style (handleDragend st) (c, ''transform'') = Text ''''"
      "style (handleDragend st) (c, ''opacity'') = Text ''''"
      "style (handleDragend st) (c, ''transition-duration'') = Text ''0ms''"
      by (simp_all add: active)
    from reset_loop_order_some [OF mem, of 0 ?emitted]
    show "\<exists>i<length (children st). ?cs ! i = c \<and>
        style (handleDragend st) (c, ''order'') = NumberString (real i)"
      by (simp add: active length_sortablesInVisualOrder)
  }
  fix snapshot
  let ?st = "st\<lparr>sortablesAndBounds := snapshot\<rparr>"
  have same: "sortablesInVisualOrder ?st = ?cs"
    by (rule sortablesInVisualOrder_cong) (simp_all add: boundingClientRect_def fun_eq_iff)
  from assms have "draggingItemIndex ?st \<noteq> Some (- 1)" by simp
  from handleDragend_active [OF this]
  have "effects (handleDragend ?st) =
           effects st @ ?ev #
           concat (map (\<lambda>i. [SetProperty (?cs ! i) ''transition-duration'' (Text ''0ms''),
                              SetProperty (?cs ! i) ''transform'' (Text ''''),
                              SetProperty (?cs ! i) ''opacity'' (Text ''''),
                              SetProperty (?cs ! i) ''order'' (NumberString (real i))])
                     [0..<length (children st)])"
    by (simp add: same reset_loop_log length_sortablesInVisualOrder)
  with log show "effects (handleDragend ?st) = effects (handleDragend st)" by simp
qed

lemma dragging1_started:
  "dragging1 =
     shuffled3\<lparr>draggingItemIndex := Some 2,
               sortablesAndBounds :=
                 [\<lparr>child = 1, bounds = \<lparr>left = 0, top' = 0, right = 100, bottom = 18\<rparr>\<rparr>,
                  \<lparr>child = 2, bounds = \<lparr>left = 0, top' = 20, right = 100, bottom = 38\<rparr>\<rparr>,
                  \<lparr>child = 0, bounds = \<lparr>left = 0, top' = 40, right = 100, bottom = 58\<rparr>\<rparr>]\<rparr>"
  by (simp add: dragging1_def handleDragstart_def shuffled3_order shuffled3_rect indexOf_def
      findIndex_def)

lemma moved1_state:
  "draggingItemIndex moved1 = Some 2"
  "map child (sortablesAndBounds moved1) = [1, 2, 0]"
  "children moved1 = [0, 1, 2]"
  "layout moved1 = columnLayout (\<lambda>e. if e = 0 then 2 else if e = 1 then 0 else 1)"
  by (simp_all add: moved1_def dragging1_started previewNewPositions_def previewLoop.simps
      previewValues_def arrayAt_def previewWrites_def setProperty_def shuffled3_children)
     (simp_all add: shuffled3_def constructed_def)

lemma moved1_style:
  "style moved1 (0, ''transform'') = Translate (Some 0) (Some (- 40))"
  "style moved1 (Suc 0, ''transform'') = Translate (Some 0) (Some 20)"
  "style moved1 (2, ''transform'') = Translate (Some 0) (Some 20)"
  "style moved1 (e, ''order'') = Text ''''"
  by (simp_all add: moved1_def dragging1_started previewNewPositions_def previewLoop.simps
      previewValues_def arrayAt_def previewWrites_def setProperty_def transitionLonghands_def
      shuffled3_fresh)

lemma moved1_order: "sortablesInVisualOrder moved1 = [0, 1, 2]"
proof -
  have rect:
    "boundingClientRect moved1 0 = \<lparr>left = 0, top' = 0, right = 100, bottom = 18\<rparr>"
    "boundingClientRect moved1 (Suc 0) = \<lparr>left = 0, top' = 20, right = 100, bottom = 38\<rparr>"
    "boundingClientRect moved1 2 = \<lparr>left = 0, top' = 40, right = 100, bottom = 58\<rparr>"
    by (simp_all add: boundingClientRect_def moved1_state moved1_style columnLayout_def
        orderOf_def placed_def translation_def)
  show ?thesis
    by (simp add: sortablesInVisualOrder_def sortables_def moved1_state compareBounds_def rect)
qed

theorem handleDragend_emits_then_resets_witness:
  "draggingItemIndex moved1 \<noteq> Some (- 1) \<and>
   map child (sortablesAndBounds moved1) = [1, 2, 0] \<and>
   effects (handleDragend moved1) =
     effects moved1 @
     [DispatchEvent ''sort'' [0, 1, 2],
      SetProperty 0 ''transition-duration'' (Text ''0ms''), SetProperty 0 ''transform'' (Text ''''),
      SetProperty 0 ''opacity'' (Text ''''), SetProperty 0 ''order'' (NumberString 0),
      SetProperty 1 ''transition-duration'' (Text ''0ms''), SetProperty 1 ''transform'' (Text ''''),
      SetProperty 1 ''opacity'' (Text ''''), SetProperty 1 ''order'' (NumberString 1),
      SetProperty 2 ''transition-duration'' (Text ''0ms''), SetProperty 2 ''transform'' (Text ''''),
      SetProperty 2 ''opacity'' (Text ''''), SetProperty 2 ''order'' (NumberString 2)] \<and>
   style moved1 (0, ''transform'') = Translate (Some 0) (Some (- 40)) \<and>
   style (handleDragend moved1) (0, ''transform'') = Text ''''"
proof -
  have active: "draggingItemIndex moved1 \<noteq> Some (- 1)" by (simp add: moved1_state)
  note dragend = handleDragend_emits_then_resets [OF active]
  have upt: "[0..<3] = [0, 1, 2]" by (simp add: upt_conv_Cons)
  from dragend [THEN conjunct1]
  have log: "effects (handleDragend moved1) =
     effects moved1 @
     [DispatchEvent ''sort'' [0, 1, 2],
      SetProperty 0 ''transition-duration'' (Text ''0ms''), SetProperty 0 ''transform'' (Text ''''),
      SetProperty 0 ''opacity'' (Text ''''), SetProperty 0 ''order'' (NumberString 0),
      SetProperty 1 ''transition-duration'' (Text ''0ms''), SetProperty 1 ''transform'' (Text ''''),
      SetProperty 1 ''opacity'' (Text ''''), SetProperty 1 ''order'' (NumberString 1),
      SetProperty 2 ''transition-duration'' (Text ''0ms''), SetProperty 2 ''transform'' (Text ''''),
      SetProperty 2 ''opacity'' (Text ''''), SetProperty 2 ''order'' (NumberString 2)]"
    by (simp add: moved1_order moved1_state upt)
  have "0 \<in> set (children moved1)" by (simp add: moved1_state)
  from dragend [THEN conjunct2, THEN conjunct1, rule_format, OF this]
  have "style (handleDragend moved1) (0, ''transform'') = Text ''''" by (rule conjunct1)
  with active log moved1_state(2) moved1_style(1) show ?thesis by simp
qed
text \<open>
  At the sentinel \<open>- 1\<close>, the value \<^verbatim>\<open>indexOf\<close> gives a drag that started on no
  sortable item, both handlers return at once.
\<close>

lemma handlers_ignore_sentinel:
  "draggingItemIndex st = Some (- 1) \<Longrightarrow>
   handleDragover clientX clientY st = Inr st \<and> handleDragend st = st"
  by (simp add: handleDragover_def handleDragend_def)

lemma handleDragend_shuffled3:
  "handleDragend shuffled3 =
     forEachIndexed resetChild [1, 2, 0] 0 (shuffled3\<lparr>effects := [DispatchEvent ''sort'' [1, 2, 0]]\<rparr>)"
  using handleDragend_active [of shuffled3] by (simp add: shuffled3_fresh shuffled3_order)

text \<open>
  Claim C4. A component that has seen no drag start has an undefined dragged index, which
  the handlers' guard \<^verbatim>\<open>=== -1\<close> lets through. On such a component with three
  children, \<^verbatim>\<open>handleDragend\<close> dispatches a \<open>sort\<close> event and runs the reset, which
  writes four style properties of every child; \<^verbatim>\<open>handleDragover\<close> calls
  \<^verbatim>\<open>preventDefault\<close> and sets the drop index to \<open>- 1\<close>.
\<close>

theorem handlers_without_drag_start:
  "draggingItemIndex shuffled3 = None \<and>
   dropIndex shuffled3 = None \<and>
   sortablesAndBounds shuffled3 = [] \<and>
   effects shuffled3 = [] \<and>
   effects (handleDragend shuffled3) =
     [DispatchEvent ''sort'' [1, 2, 0],
      SetProperty 1 ''transition-duration'' (Text ''0ms''), SetProperty 1 ''transform'' (Text ''''),
      SetProperty 1 ''opacity'' (Text ''''), SetProperty 1 ''order'' (NumberString 0),
      SetProperty 2 ''transition-duration'' (Text ''0ms''), SetProperty 2 ''transform'' (Text ''''),
      SetProperty 2 ''opacity'' (Text ''''), SetProperty 2 ''order'' (NumberString 1),
      SetProperty 0 ''transition-duration'' (Text ''0ms''), SetProperty 0 ''transform'' (Text ''''),
      SetProperty 0 ''opacity'' (Text ''''), SetProperty 0 ''order'' (NumberString 2)] \<and>
   style shuffled3 (0, ''order'') = Text '''' \<and>
   style (handleDragend shuffled3) (0, ''order'') = NumberString 2 \<and>
   style shuffled3 (0, ''transition-duration'') = Text '''' \<and>
   style (handleDragend shuffled3) (0, ''transition-duration'') = Text ''0ms'' \<and>
   handleDragover 50 25 shuffled3 =
     Inr (shuffled3\<lparr>dropIndex := Some (- 1), effects := [PreventDefault]\<rparr>)"
proof -
  have log: "effects (handleDragend shuffled3) =
     [DispatchEvent ''sort'' [1, 2, 0],
      SetProperty 1 ''transition-duration'' (Text ''0ms''), SetProperty 1 ''transform'' (Text ''''),
      SetProperty 1 ''opacity'' (Text ''''), SetProperty 1 ''order'' (NumberString 0),
      SetProperty 2 ''transition-duration'' (Text ''0ms''), SetProperty 2 ''transform'' (Text ''''),
      SetProperty 2 ''opacity'' (Text ''''), SetProperty 2 ''order'' (NumberString 1),
      SetProperty 0 ''transition-duration'' (Text ''0ms''), SetProperty 0 ''transform'' (Text ''''),
      SetProperty 0 ''opacity'' (Text ''''), SetProperty 0 ''order'' (NumberString 2)]"
    by (simp add: handleDragend_shuffled3 resetChild_effects)
  have styled: "style (handleDragend shuffled3) (0, ''order'') = NumberString 2"
    "style (handleDragend shuffled3) (0, ''transition-duration'') = Text ''0ms''"
    by (simp_all add: handleDragend_shuffled3 resetChild_style)
  have over: "handleDragover 50 25 shuffled3 =
     Inr (shuffled3\<lparr>dropIndex := Some (- 1), effects := [PreventDefault]\<rparr>)"
    by (simp add: handleDragover_def preventDefault_def findSortableIndex_def findIndex_def
        previewNewPositions_def shuffled3_fresh Let_def)
  from log styled over show ?thesis by (simp add: shuffled3_fresh)
qed

section \<open>Properties of the drag handle configuration\<close>

lemma querySelectorClass_None:
  "querySelectorClass c ns = None \<longleftrightarrow> (\<forall>n\<in>set ns. c \<notin> set (classList n))"
  by (induction ns) auto

lemma querySelectorClass_Some:
  "querySelectorClass c ns = Some k \<Longrightarrow>
   k < length ns \<and> c \<in> set (classList (ns ! k)) \<and> (\<forall>j<k. c \<notin> set (classList (ns ! j)))"
proof (induction ns arbitrary: k)
  case Nil
  then show ?case by simp
next
  case (Cons n ns)
  show ?case
  proof (cases "c \<in> set (classList n)")
    case True
    with Cons.prems show ?thesis by simp
  next
    case False
    with Cons.prems obtain k' where k': "querySelectorClass c ns = Some k'" "k = Suc k'"
      by auto
    from Cons.IH [OF k'(1)] False k'(2) show ?thesis
      by (auto simp: nth_Cons split: nat.splits)
  qed
qed

lemma querySelectorClass_cong:
  "map classList ns' = map classList ns \<Longrightarrow> querySelectorClass c ns' = querySelectorClass c ns"
proof (induction ns arbitrary: ns')
  case Nil
  then show ?case by simp
next
  case (Cons n ns)
  then obtain m ms where "ns' = m # ms" "classList m = classList n" "map classList ms = map classList ns"
    by (cases ns') auto
  with Cons.IH [of ms] show ?case by simp
qed

lemma querySelectorClass_marked:
  "querySelectorClass c (ns[k := (ns ! k)\<lparr>draggable := True\<rparr>]) = querySelectorClass c ns"
proof (rule querySelectorClass_cong)
  show "map classList (ns[k := (ns ! k)\<lparr>draggable := True\<rparr>]) = map classList ns"
    by (cases "k < length ns") (simp_all add: map_update list_update_same_conv list_update_beyond)
qed

lemma count_marked:
  "length (filter (\<lambda>n. c \<in> set (classList n)) (ns[k := (ns ! k)\<lparr>draggable := True\<rparr>])) =
   length (filter (\<lambda>n. c \<in> set (classList n)) ns)"
proof -
  have "map (\<lambda>n. c \<in> set (classList n)) (ns[k := (ns ! k)\<lparr>draggable := True\<rparr>]) =
        map (\<lambda>n. c \<in> set (classList n)) ns"
    by (cases "k < length ns") (simp_all add: map_update list_update_same_conv list_update_beyond)
  then have "length (filter id (map (\<lambda>n. c \<in> set (classList n)) (ns[k := (ns ! k)\<lparr>draggable := True\<rparr>]))) =
        length (filter id (map (\<lambda>n. c \<in> set (classList n)) ns))"
    by simp
  then show ?thesis by (simp add: filter_map comp_def)
qed

lemma withDragHandle_query:
  "\<exists>k. querySelectorClass ''drag-handle'' (withDragHandle ns) = Some k \<and>
       k < length (withDragHandle ns) \<and> draggable (withDragHandle ns ! k)"
proof (cases "querySelectorClass ''drag-handle'' ns")
  case None
  then show ?thesis by (simp add: withDragHandle_def)
next
  case (Some k)
  from querySelectorClass_Some [OF Some] Some show ?thesis
    by (simp add: withDragHandle_def querySelectorClass_marked)
qed

lemma withDragHandle_idem: "withDragHandle (withDragHandle ns) = withDragHandle ns"
proof (cases "querySelectorClass ''drag-handle'' ns")
  case None
  then show ?thesis by (simp add: withDragHandle_def)
next
  case (Some k)
  from querySelectorClass_Some [OF Some] have "k < length ns" by simp
  with Some show ?thesis by (simp add: withDragHandle_def querySelectorClass_marked)
qed

lemma withDragHandle_count:
  "length (filter (\<lambda>n. ''drag-handle'' \<in> set (classList n)) (withDragHandle ns)) =
   max 1 (length (filter (\<lambda>n. ''drag-handle'' \<in> set (classList n)) ns))"
proof (cases "querySelectorClass ''drag-handle'' ns")
  case None
  then have "filter (\<lambda>n. ''drag-handle'' \<in> set (classList n)) ns = []"
    by (simp add: querySelectorClass_None filter_empty_conv)
  with None show ?thesis by (simp add: withDragHandle_def)
next
  case (Some k)
  from querySelectorClass_Some [OF Some]
  have "ns ! k \<in> set (filter (\<lambda>n. ''drag-handle'' \<in> set (classList n)) ns)" by simp
  then have "1 \<le> length (filter (\<lambda>n. ''drag-handle'' \<in> set (classList n)) ns)"
    by (cases "filter (\<lambda>n. ''drag-handle'' \<in> set (classList n)) ns") simp_all
  with Some show ?thesis by (simp add: withDragHandle_def count_marked)
qed

lemma create_implies_use: "createDragHandles st \<Longrightarrow> useDragHandles st"
  by (simp add: createDragHandles_def useDragHandles_def truthy_def)

lemma makeSortableDraggable_create:
  assumes "createDragHandles st"
  shows "makeSortableDraggable c st =
     Inr (st\<lparr>descendants := (descendants st)(c := withDragHandle (descendants st c))\<rparr>)"
proof (cases "querySelectorClass ''drag-handle'' (descendants st c)")
  case None
  have use: "useDragHandles (prepend c n st)" for n
    using create_implies_use [OF assms] by (simp add: useDragHandles_def getAttribute_def prepend_def)
  from None assms show ?thesis
    by (simp add: makeSortableDraggable_def Let_def use withDragHandle_def)
       (simp add: prepend_def setNodeDraggable_def classListAdd_def createElement_def)
next
  case (Some k)
  with assms create_implies_use [OF assms] show ?thesis
    by (simp add: makeSortableDraggable_def withDragHandle_def setNodeDraggable_def)
qed

lemma makeSortableDraggable_throws_iff:
  "(\<exists>thrown. makeSortableDraggable c st = Inl thrown) \<longleftrightarrow>
   useDragHandles st \<and> \<not> createDragHandles st \<and>
   querySelectorClass ''drag-handle'' (descendants st c) = None"
proof (cases "createDragHandles st")
  case True
  then show ?thesis by (simp add: makeSortableDraggable_create)
next
  case False
  then show ?thesis
    by (auto simp: makeSortableDraggable_def split: option.splits)
qed

lemma forEach_create:
  "createDragHandles st \<Longrightarrow>
   forEachThrowing makeSortableDraggable cs st =
     Inr (st\<lparr>descendants :=
              (\<lambda>c. if c \<in> set cs then withDragHandle (descendants st c) else descendants st c)\<rparr>)"
proof (induction cs arbitrary: st)
  case Nil
  then show ?case by simp
next
  case (Cons c cs)
  let ?st1 = "st\<lparr>descendants := (descendants st)(c := withDragHandle (descendants st c))\<rparr>"
  from Cons.prems have create1: "createDragHandles ?st1"
    by (simp add: createDragHandles_def getAttribute_def)
  have "(\<lambda>x. if x \<in> set cs then withDragHandle (descendants ?st1 x) else descendants ?st1 x) =
        (\<lambda>x. if x \<in> set (c # cs) then withDragHandle (descendants st x) else descendants st x)"
    by (auto simp: fun_eq_iff withDragHandle_idem)
  with Cons.IH [OF create1] Cons.prems show ?case
    by (simp add: makeSortableDraggable_create)
qed

text \<open>
  Claim C8. With \<^verbatim>\<open>drag-handles="create"\<close>, \<^verbatim>\<open>makeAllSortablesDraggable\<close> returns
  normally, and for every child: if it had no descendant of class \<^verbatim>\<open>drag-handle\<close>, it
  now has one more descendant, in front: a draggable \<^verbatim>\<open>div\<close> of that class, so exactly
  one handle; if it had one, its first one is now draggable and nothing was added. The
  first handle of every child is draggable, the children's own \<^verbatim>\<open>draggable\<close> flags
  are untouched, and running the operation again, on one child or on all, changes nothing.
\<close>

theorem create_drag_handles:
  assumes "attributes st ''drag-handles'' = Some ''create''"
  shows "\<exists>st'. makeAllSortablesDraggable st = Inr st' \<and>
     (\<forall>c\<in>set (children st).
        (querySelectorClass ''drag-handle'' (descendants st c) = None \<longrightarrow>
           descendants st' c =
             \<lparr>tagName = ''div'', classList = [''drag-handle''], draggable = True\<rparr> # descendants st c) \<and>
        (\<forall>k. querySelectorClass ''drag-handle'' (descendants st c) = Some k \<longrightarrow>
           descendants st' c = (descendants st c)[k := (descendants st c ! k)\<lparr>draggable := True\<rparr>]) \<and>
        length (filter (\<lambda>n. ''drag-handle'' \<in> set (classList n)) (descendants st' c)) =
          max 1 (length (filter (\<lambda>n. ''drag-handle'' \<in> set (classList n)) (descendants st c))) \<and>
        (\<exists>k<length (descendants st' c).
           querySelectorClass ''drag-handle'' (descendants st' c) = Some k \<and>
           draggable (descendants st' c ! k)) \<and>
        makeSortableDraggable c st' = Inr st') \<and>
     itemDraggable st' = itemDraggable st \<and>
     children st' = children st \<and>
     makeAllSortablesDraggable st' = Inr st'"
    (is "\<exists>st'. ?made st'")
proof -
  let ?st' = "st\<lparr>descendants :=
     (\<lambda>c. if c \<in> set (children st) then withDragHandle (descendants st c) else descendants st c)\<rparr>"
  from assms have create: "createDragHandles st"
    by (simp add: createDragHandles_def getAttribute_def)
  then have create': "createDragHandles ?st'"
    by (simp add: createDragHandles_def getAttribute_def)
  have all: "makeAllSortablesDraggable st = Inr ?st'"
    using create by (simp add: makeAllSortablesDraggable_def sortables_def forEach_create)
  have again: "makeAllSortablesDraggable ?st' = Inr ?st'"
  proof -
    have "(\<lambda>c. if c \<in> set (children st) then withDragHandle (descendants ?st' c) else descendants ?st' c) =
        descendants ?st'"
      by (auto simp: fun_eq_iff withDragHandle_idem)
    then show ?thesis
      using create' by (simp add: makeAllSortablesDraggable_def sortables_def forEach_create)
  qed
  have each: "(querySelectorClass ''drag-handle'' (descendants st c) = None \<longrightarrow>
           descendants ?st' c =
             \<lparr>tagName = ''div'', classList = [''drag-handle''], draggable = True\<rparr> # descendants st c) \<and>
        (\<forall>k. querySelectorClass ''drag-handle'' (descendants st c) = Some k \<longrightarrow>
           descendants ?st' c = (descendants st c)[k := (descendants st c ! k)\<lparr>draggable := True\<rparr>]) \<and>
        length (filter (\<lambda>n. ''drag-handle'' \<in> set (classList n)) (descendants ?st' c)) =
          max 1 (length (filter (\<lambda>n. ''drag-handle'' \<in> set (classList n)) (descendants st c))) \<and>
        (\<exists>k<length (descendants ?st' c).
           querySelectorClass ''drag-handle'' (descendants ?st' c) = Some k \<and>
           draggable (descendants ?st' c ! k)) \<and>
        makeSortableDraggable c ?st' = Inr ?st'"
    if c: "c \<in> set (children st)" for c
  proof -
    from c have d: "descendants ?st' c = withDragHandle (descendants st c)" by simp
    have "(descendants ?st')(c := withDragHandle (descendants ?st' c)) = descendants ?st'"
      unfolding d by (simp add: withDragHandle_idem fun_eq_iff c)
    then have "makeSortableDraggable c ?st' = Inr ?st'"
      using create' by (simp add: makeSortableDraggable_create)
    moreover have "\<exists>k<length (descendants ?st' c).
           querySelectorClass ''drag-handle'' (descendants ?st' c) = Some k \<and>
           draggable (descendants ?st' c ! k)"
      unfolding d using withDragHandle_query [of "descendants st c"] by blast
    moreover have "length (filter (\<lambda>n. ''drag-handle'' \<in> set (classList n)) (descendants ?st' c)) =
          max 1 (length (filter (\<lambda>n. ''drag-handle'' \<in> set (classList n)) (descendants st c)))"
      unfolding d by (rule withDragHandle_count)
    moreover have "querySelectorClass ''drag-handle'' (descendants st c) = None \<longrightarrow>
           descendants ?st' c =
             \<lparr>tagName = ''div'', classList = [''drag-handle''], draggable = True\<rparr> # descendants st c"
      unfolding d by (simp add: withDragHandle_def)
    moreover have "\<forall>k. querySelectorClass ''drag-handle'' (descendants st c) = Some k \<longrightarrow>
           descendants ?st' c = (descendants st c)[k := (descendants st c ! k)\<lparr>draggable := True\<rparr>]"
      unfolding d by (simp add: withDragHandle_def)
    ultimately show ?thesis by blast
  qed
  have "?made ?st'"
  proof (intro conjI)
    show "makeAllSortablesDraggable st = Inr ?st'" by (rule all)
    show "itemDraggable ?st' = itemDraggable st" by simp
    show "children ?st' = children st" by simp
    show "makeAllSortablesDraggable ?st' = Inr ?st'" by (rule again)
  qed (intro ballI, rule each)
  then show ?thesis by (rule exI)
qed

lemma twoItems_fields:
  "children (twoItems v subs) = [0, 1]"
  "attributes (twoItems v subs) ''drag-handles'' = v"
  "descendants (twoItems v subs) = subs"
  "itemDraggable (twoItems v subs) = (\<lambda>_. False)"
  by (simp_all add: twoItems_def constructed_def)

theorem create_drag_handles_witness:
  "attributes (twoItems (Some ''create'') (\<lambda>e. if e = 1 then [callerHandle] else [])) ''drag-handles'' =
     Some ''create'' \<and>
   (\<exists>st'. makeAllSortablesDraggable (twoItems (Some ''create'') (\<lambda>e. if e = 1 then [callerHandle] else [])) =
            Inr st' \<and>
      descendants st' 0 = [\<lparr>tagName = ''div'', classList = [''drag-handle''], draggable = True\<rparr>] \<and>
      descendants st' 1 = [\<lparr>tagName = ''span'', classList = [''drag-handle''], draggable = True\<rparr>] \<and>
      \<not> itemDraggable st' 0 \<and> \<not> itemDraggable st' 1)"
proof -
  let ?st = "twoItems (Some ''create'') (\<lambda>e. if e = 1 then [callerHandle] else [])"
  have attr: "attributes ?st ''drag-handles'' = Some ''create''" by (simp add: twoItems_fields)
  from create_drag_handles [OF attr] obtain st' where
    ret: "makeAllSortablesDraggable ?st = Inr st'"
    and each: "\<forall>c\<in>set (children ?st).
        (querySelectorClass ''drag-handle'' (descendants ?st c) = None \<longrightarrow>
           descendants st' c =
             \<lparr>tagName = ''div'', classList = [''drag-handle''], draggable = True\<rparr> # descendants ?st c) \<and>
        (\<forall>k. querySelectorClass ''drag-handle'' (descendants ?st c) = Some k \<longrightarrow>
           descendants st' c = (descendants ?st c)[k := (descendants ?st c ! k)\<lparr>draggable := True\<rparr>]) \<and>
        length (filter (\<lambda>n. ''drag-handle'' \<in> set (classList n)) (descendants st' c)) =
          max 1 (length (filter (\<lambda>n. ''drag-handle'' \<in> set (classList n)) (descendants ?st c))) \<and>
        (\<exists>k<length (descendants st' c).
           querySelectorClass ''drag-handle'' (descendants st' c) = Some k \<and>
           draggable (descendants st' c ! k)) \<and>
        makeSortableDraggable c st' = Inr st'"
    and item: "itemDraggable st' = itemDraggable ?st"
    by (elim exE conjE) (rule that)
  from each [rule_format, of 0] have d0:
    "descendants st' 0 = [\<lparr>tagName = ''div'', classList = [''drag-handle''], draggable = True\<rparr>]"
    by (simp add: twoItems_fields)
  from each [rule_format, of 1] have d1:
    "descendants st' 1 = [\<lparr>tagName = ''span'', classList = [''drag-handle''], draggable = True\<rparr>]"
    by (simp add: twoItems_fields callerHandle_def)
  from item have "\<not> itemDraggable st' 0 \<and> \<not> itemDraggable st' 1" by (simp add: twoItems_fields)
  with attr ret d0 d1 show ?thesis by blast
qed

lemma makeSortableDraggable_keeps_handles:
  assumes "makeSortableDraggable c st = Inr st'"
    and "querySelectorClass ''drag-handle'' (descendants st x) \<noteq> None"
  shows "querySelectorClass ''drag-handle'' (descendants st' x) \<noteq> None"
  using assms
  by (auto simp: makeSortableDraggable_def Let_def prepend_def setNodeDraggable_def
      querySelectorClass_marked split: if_splits option.splits)

lemma forEach_with_handles:
  "\<forall>c\<in>set cs. querySelectorClass ''drag-handle'' (descendants st c) \<noteq> None \<Longrightarrow>
   \<exists>st'. forEachThrowing makeSortableDraggable cs st = Inr st'"
proof (induction cs arbitrary: st)
  case Nil
  then show ?case by simp
next
  case (Cons c cs)
  from Cons.prems have "\<not> (\<exists>thrown. makeSortableDraggable c st = Inl thrown)"
    unfolding makeSortableDraggable_throws_iff by simp
  then obtain st1 where st1: "makeSortableDraggable c st = Inr st1"
    by (cases "makeSortableDraggable c st") auto
  from Cons.prems have "\<forall>x\<in>set cs. querySelectorClass ''drag-handle'' (descendants st1 x) \<noteq> None"
    using makeSortableDraggable_keeps_handles [OF st1] by simp
  from Cons.IH [OF this] st1 show ?case by simp
qed

text \<open>
  Claim C9. When handles are used and not created and the item has no descendant of
  class \<^verbatim>\<open>drag-handle\<close>, \<^verbatim>\<open>makeSortableDraggable\<close> throws a TypeError and the state
  at the throw is the state before the call: nothing was created or made draggable.
  This is the only way it throws. When every child has such a descendant, making all
  children draggable returns normally.
\<close>

theorem missing_drag_handle_throws:
  "(useDragHandles st \<and> \<not> createDragHandles st \<and>
      querySelectorClass ''drag-handle'' (descendants st c) = None \<longrightarrow>
      makeSortableDraggable c st = Inl (TypeError, st)) \<and>
   ((\<exists>thrown. makeSortableDraggable c st = Inl thrown) \<longleftrightarrow>
      useDragHandles st \<and> \<not> createDragHandles st \<and>
      querySelectorClass ''drag-handle'' (descendants st c) = None) \<and>
   ((\<forall>c\<in>set (children st). querySelectorClass ''drag-handle'' (descendants st c) \<noteq> None) \<longrightarrow>
      (\<exists>st'. makeAllSortablesDraggable st = Inr st') \<and>
      (\<forall>c\<in>set (children st). \<exists>st'. makeSortableDraggable c st = Inr st'))"
proof (intro conjI impI)
  assume "useDragHandles st \<and> \<not> createDragHandles st \<and>
      querySelectorClass ''drag-handle'' (descendants st c) = None"
  then show "makeSortableDraggable c st = Inl (TypeError, st)"
    by (simp add: makeSortableDraggable_def)
next
  show "(\<exists>thrown. makeSortableDraggable c st = Inl thrown) \<longleftrightarrow>
      useDragHandles st \<and> \<not> createDragHandles st \<and>
      querySelectorClass ''drag-handle'' (descendants st c) = None"
    by (rule makeSortableDraggable_throws_iff)
next
  assume all: "\<forall>c\<in>set (children st). querySelectorClass ''drag-handle'' (descendants st c) \<noteq> None"
  then show "\<exists>st'. makeAllSortablesDraggable st = Inr st'"
    by (simp add: makeAllSortablesDraggable_def sortables_def forEach_with_handles)
  show "\<forall>c\<in>set (children st). \<exists>st'. makeSortableDraggable c st = Inr st'"
  proof
    fix c assume "c \<in> set (children st)"
    with all have "\<not> (\<exists>thrown. makeSortableDraggable c st = Inl thrown)"
      unfolding makeSortableDraggable_throws_iff by simp
    then show "\<exists>st'. makeSortableDraggable c st = Inr st'"
      by (cases "makeSortableDraggable c st") auto
  qed
qed

theorem missing_drag_handle_throws_witness:
  "useDragHandles (twoItems (Some ''true'') (\<lambda>e. if e = 1 then [callerHandle] else [])) \<and>
   \<not> createDragHandles (twoItems (Some ''true'') (\<lambda>e. if e = 1 then [callerHandle] else [])) \<and>
   querySelectorClass ''drag-handle''
     (descendants (twoItems (Some ''true'') (\<lambda>e. if e = 1 then [callerHandle] else [])) 0) = None \<and>
   makeSortableDraggable 0 (twoItems (Some ''true'') (\<lambda>e. if e = 1 then [callerHandle] else [])) =
     Inl (TypeError, twoItems (Some ''true'') (\<lambda>e. if e = 1 then [callerHandle] else [])) \<and>
   \<not> (\<exists>c\<in>set (children (twoItems (Some ''true'') (\<lambda>_. [callerHandle]))).
        querySelectorClass ''drag-handle'' (descendants (twoItems (Some ''true'') (\<lambda>_. [callerHandle])) c) = None) \<and>
   (\<exists>st'. makeAllSortablesDraggable (twoItems (Some ''true'') (\<lambda>_. [callerHandle])) = Inr st')"
proof -
  let ?bad = "twoItems (Some ''true'') (\<lambda>e. if e = 1 then [callerHandle] else [])"
  let ?good = "twoItems (Some ''true'') (\<lambda>_. [callerHandle])"
  have cfg: "useDragHandles ?bad" "\<not> createDragHandles ?bad"
    by (simp_all add: useDragHandles_def createDragHandles_def getAttribute_def truthy_def twoItems_fields)
  have none: "querySelectorClass ''drag-handle'' (descendants ?bad 0) = None"
    by (simp add: twoItems_fields)
  from missing_drag_handle_throws [of ?bad 0, THEN conjunct1] cfg none
  have throws: "makeSortableDraggable 0 ?bad = Inl (TypeError, ?bad)" by blast
  have handles: "\<forall>c\<in>set (children ?good). querySelectorClass ''drag-handle'' (descendants ?good c) \<noteq> None"
    by (simp add: twoItems_fields callerHandle_def)
  from missing_drag_handle_throws [of ?good 0, THEN conjunct2, THEN conjunct2] handles
  have "\<exists>st'. makeAllSortablesDraggable ?good = Inr st'" by blast
  with cfg none throws handles show ?thesis by blast
qed

text \<open>
  Claim C10. \<^verbatim>\<open>useDragHandles\<close> holds exactly when the \<^verbatim>\<open>drag-handles\<close> attribute is
  present, not empty and not \<^verbatim>\<open>false\<close>; \<^verbatim>\<open>createDragHandles\<close> holds exactly when it
  is \<^verbatim>\<open>create\<close>. For every other value that is present, not empty and not
  \<^verbatim>\<open>false\<close> (\<^verbatim>\<open>true\<close>, or an unrecognised one such as \<^verbatim>\<open>yes\<close>),
  \<^verbatim>\<open>makeSortableDraggable\<close> creates nothing and needs a handle: it makes the item's
  first handle draggable, and throws when there is none. With the empty string, as with
  no attribute or with \<^verbatim>\<open>false\<close>, it makes the item itself draggable.
\<close>

theorem drag_handles_attribute:
  "useDragHandles st =
     (\<exists>v. attributes st ''drag-handles'' = Some v \<and> v \<noteq> '''' \<and> v \<noteq> ''false'') \<and>
   createDragHandles st = (attributes st ''drag-handles'' = Some ''create'') \<and>
   ((\<exists>v. attributes st ''drag-handles'' = Some v \<and> v \<noteq> '''' \<and> v \<noteq> ''false'' \<and> v \<noteq> ''create'') \<longrightarrow>
      makeSortableDraggable c st =
        (case querySelectorClass ''drag-handle'' (descendants st c) of
           None \<Rightarrow> Inl (TypeError, st)
         | Some k \<Rightarrow> Inr (setNodeDraggable c k st))) \<and>
   (attributes st ''drag-handles'' = Some '''' \<or> attributes st ''drag-handles'' = None \<or>
    attributes st ''drag-handles'' = Some ''false'' \<longrightarrow>
      \<not> useDragHandles st \<and> \<not> createDragHandles st \<and>
      makeSortableDraggable c st = Inr (st\<lparr>itemDraggable := (itemDraggable st)(c := True)\<rparr>))"
proof (intro conjI impI)
  show use: "useDragHandles st =
     (\<exists>v. attributes st ''drag-handles'' = Some v \<and> v \<noteq> '''' \<and> v \<noteq> ''false'')"
    by (auto simp: useDragHandles_def getAttribute_def truthy_def split: option.splits)
  show create: "createDragHandles st = (attributes st ''drag-handles'' = Some ''create'')"
    by (simp add: createDragHandles_def getAttribute_def)
  {
    assume "\<exists>v. attributes st ''drag-handles'' = Some v \<and> v \<noteq> '''' \<and> v \<noteq> ''false'' \<and> v \<noteq> ''create''"
    with use create have "useDragHandles st" "\<not> createDragHandles st" by auto
    then show "makeSortableDraggable c st =
        (case querySelectorClass ''drag-handle'' (descendants st c) of
           None \<Rightarrow> Inl (TypeError, st)
         | Some k \<Rightarrow> Inr (setNodeDraggable c k st))"
      by (simp add: makeSortableDraggable_def)
  }
  {
    assume "attributes st ''drag-handles'' = Some '''' \<or> attributes st ''drag-handles'' = None \<or>
      attributes st ''drag-handles'' = Some ''false''"
    with use create show off: "\<not> useDragHandles st" "\<not> createDragHandles st" by auto
    then show "makeSortableDraggable c st = Inr (st\<lparr>itemDraggable := (itemDraggable st)(c := True)\<rparr>)"
      by (simp add: makeSortableDraggable_def)
  }
qed

theorem drag_handles_attribute_witness:
  "makeSortableDraggable 0 (twoItems (Some ''yes'') (\<lambda>e. if e = 1 then [callerHandle] else [])) =
     Inl (TypeError, twoItems (Some ''yes'') (\<lambda>e. if e = 1 then [callerHandle] else [])) \<and>
   makeSortableDraggable 1 (twoItems (Some ''yes'') (\<lambda>e. if e = 1 then [callerHandle] else [])) =
     Inr (setNodeDraggable 1 0 (twoItems (Some ''yes'') (\<lambda>e. if e = 1 then [callerHandle] else []))) \<and>
   makeSortableDraggable 0 (twoItems (Some '''') (\<lambda>_. [])) =
     Inr ((twoItems (Some '''') (\<lambda>_. []))\<lparr>itemDraggable := (\<lambda>_. False)(0 := True)\<rparr>) \<and>
   makeSortableDraggable 0 (twoItems None (\<lambda>_. [])) =
     Inr ((twoItems None (\<lambda>_. []))\<lparr>itemDraggable := (\<lambda>_. False)(0 := True)\<rparr>)"
proof -
  let ?yes = "twoItems (Some ''yes'') (\<lambda>e. if e = 1 then [callerHandle] else [])"
  have "\<exists>v. attributes ?yes ''drag-handles'' = Some v \<and> v \<noteq> '''' \<and> v \<noteq> ''false'' \<and> v \<noteq> ''create''"
    by (simp add: twoItems_fields)
  with drag_handles_attribute [of ?yes] have yes: "makeSortableDraggable c ?yes =
        (case querySelectorClass ''drag-handle'' (descendants ?yes c) of
           None \<Rightarrow> Inl (TypeError, ?yes)
         | Some k \<Rightarrow> Inr (setNodeDraggable c k ?yes))" for c
    using drag_handles_attribute [of ?yes c] by blast
  have y0: "makeSortableDraggable 0 ?yes = Inl (TypeError, ?yes)"
    unfolding yes by (simp add: twoItems_fields)
  have y1: "makeSortableDraggable 1 ?yes = Inr (setNodeDraggable 1 0 ?yes)"
    unfolding yes by (simp add: twoItems_fields callerHandle_def)
  have "attributes (twoItems (Some '''') (\<lambda>_. [])) ''drag-handles'' = Some ''''"
    by (simp add: twoItems_fields)
  with drag_handles_attribute [of "twoItems (Some '''') (\<lambda>_. [])" 0]
  have e: "makeSortableDraggable 0 (twoItems (Some '''') (\<lambda>_. [])) =
     Inr ((twoItems (Some '''') (\<lambda>_. []))\<lparr>itemDraggable := (\<lambda>_. False)(0 := True)\<rparr>)"
    by (simp add: twoItems_fields)
  have "attributes (twoItems None (\<lambda>_. [])) ''drag-handles'' = None"
    by (simp add: twoItems_fields)
  with drag_handles_attribute [of "twoItems None (\<lambda>_. [])" 0]
  have n: "makeSortableDraggable 0 (twoItems None (\<lambda>_. [])) =
     Inr ((twoItems None (\<lambda>_. []))\<lparr>itemDraggable := (\<lambda>_. False)(0 := True)\<rparr>)"
    by (simp add: twoItems_fields)
  from y0 y1 e n show ?thesis by blast
qed

end
